theory Spec2Isabelle
  imports Complex_Main "HOL-Library.Product_Lexorder" "HOL-Library.Multiset"
begin

section \<open>Board geometry (printer\_sim.py, module constants)\<close>

text \<open>
  Python floats are read as real numbers: every coordinate the planners produce is built
  from integers by \<open>+\<close>, \<open>-\<close>, \<open>*\<close> and division by two, and the animator's
  \<open>math.hypot\<close> is the Euclidean norm.  A point is a pair \<open>(x, y)\<close> in window pixels.
\<close>

type_synonym point = "real \<times> real"

definition INCH_PX :: int where
  "INCH_PX = 96"

definition MARGIN :: int where
  "MARGIN = 32"

text \<open>\<open>BOARD_PIXELS\<close> is assigned twice in the source: 640 first, then snapped to the grid.\<close>

definition BOARD_PIXELS_initial :: int where
  "BOARD_PIXELS_initial = 640"

definition SQUARE :: int where
  "SQUARE = (BOARD_PIXELS_initial - 2 * MARGIN) div 8"

definition BOARD_PIXELS :: int where
  "BOARD_PIXELS = 2 * MARGIN + SQUARE * 8"

definition SIDEBAR_W :: int where
  "SIDEBAR_W = INCH_PX"

definition INPUT_H :: int where
  "INPUT_H = 56"

definition WIN_W :: int where
  "WIN_W = BOARD_PIXELS + SIDEBAR_W"

definition WIN_H :: int where
  "WIN_H = BOARD_PIXELS + INPUT_H"

definition TRAVEL_SPEED_PX :: real where
  "TRAVEL_SPEED_PX = 8"

definition DRAG_SPEED_PX :: real where
  "DRAG_SPEED_PX = 5"

definition rc_to_center_xy :: "int \<Rightarrow> int \<Rightarrow> point" where
  "rc_to_center_xy r c =
     (real_of_int (MARGIN + c * SQUARE) + real_of_int SQUARE / 2,
      real_of_int (MARGIN + (7 - r) * SQUARE) + real_of_int SQUARE / 2)"

section \<open>Exceptions\<close>

text \<open>
  Every raise of the source is a value: the built-in exceptions an out-of-range index, a
  missing dictionary key or a \<open>None\<close> operand give, and the \<open>RuntimeError\<close> the planners
  raise themselves, with its message.
\<close>

datatype exn = KeyError | IndexError | TypeError | RuntimeError string

section \<open>Animator (printer\_sim.py, class Animator)\<close>

record segment =
  waypoints :: "point list"
  magnet_on :: bool

text \<open>The field \<open>done\<close> of the class is \<open>done_flag\<close> here (\<open>done\<close> is reserved).\<close>

record animator =
  segments :: "segment list"
  cur_seg_i :: nat
  cur_wp_i :: nat
  pos :: "point option"
  done_flag :: bool
  last_draw_path :: "point list"

definition animator_init :: animator where
  "animator_init =
     \<lparr>segments = [], cur_seg_i = 0, cur_wp_i = 0, pos = None, done_flag = True,
      last_draw_path = []\<rparr>"

definition load :: "animator \<Rightarrow> segment list \<Rightarrow> point option \<Rightarrow> animator" where
  "load self segs start_pos =
     self\<lparr>segments := segs, cur_seg_i := 0, cur_wp_i := 0,
          done_flag := (length segs = 0),
          pos := (if start_pos = None \<and> segs \<noteq> [] \<and> waypoints (segs ! 0) \<noteq> []
                  then Some (waypoints (segs ! 0) ! 0) else start_pos),
          last_draw_path := []\<rparr>"

definition current_magnet_on :: "animator \<Rightarrow> exn + bool" where
  "current_magnet_on self =
     (if done_flag self \<or> segments self = [] then Inr False
      else if cur_seg_i self < length (segments self)
           then Inr (magnet_on (segments self ! cur_seg_i self))
           else Inl IndexError)"

definition advance_segment :: "animator \<Rightarrow> animator" where
  "advance_segment self =
     (let s1 = self\<lparr>cur_seg_i := cur_seg_i self + 1, cur_wp_i := 0\<rparr>
      in if cur_seg_i s1 \<ge> length (segments s1) then s1\<lparr>done_flag := True\<rparr> else s1)"

definition hypot :: "real \<Rightarrow> real \<Rightarrow> real" where
  "hypot dx dy = sqrt (dx * dx + dy * dy)"

text \<open>
  The moving branch of \<open>step\<close>: advance by \<open>min(speed, dist)\<close> along the direction
  \<open>(dx, dy) / (dist + 1e-9)\<close>, and while the magnet is on append the new position to the
  trace unless it is within 0.5 (Manhattan) of the trace's last point.
\<close>

definition move_towards :: "animator \<Rightarrow> segment \<Rightarrow> point \<Rightarrow> point \<Rightarrow> animator" where
  "move_towards self seg p target =
     (let speed = (if magnet_on seg then DRAG_SPEED_PX else TRAVEL_SPEED_PX);
          dx = fst target - fst p;
          dy = snd target - snd p;
          dist = hypot dx dy;
          stp = min speed dist;
          nx = fst p + (dx / (dist + 1 / 10 ^ 9)) * stp;
          ny = snd p + (dy / (dist + 1 / 10 ^ 9)) * stp;
          s1 = self\<lparr>pos := Some (nx, ny)\<rparr>
      in if magnet_on seg
         then (if last_draw_path s1 = []
               then s1\<lparr>last_draw_path := last_draw_path s1 @ [(nx, ny)]\<rparr>
               else (case last (last_draw_path s1) of (lastx, lasty) \<Rightarrow>
                       if \<bar>nx - lastx\<bar> + \<bar>ny - lasty\<bar> > 1 / 2
                       then s1\<lparr>last_draw_path := last_draw_path s1 @ [(nx, ny)]\<rparr>
                       else s1))
         else s1)"

text \<open>
  The arrival branch of \<open>step\<close> (\<open>dist < 1e-3\<close>): the target is appended to the trace while
  the magnet is on, the waypoint index advances, and the segment ends with its last waypoint.
\<close>

definition arrive :: "animator \<Rightarrow> segment \<Rightarrow> point \<Rightarrow> animator" where
  "arrive self seg target =
     (let s1 = (if magnet_on seg
                then self\<lparr>last_draw_path := last_draw_path self @ [(fst target, snd target)]\<rparr>
                else self);
          s2 = s1\<lparr>cur_wp_i := cur_wp_i s1 + 1\<rparr>
      in if cur_wp_i s2 \<ge> length (waypoints seg) then advance_segment s2 else s2)"

text \<open>\<open>step\<close> returns \<open>self.last_draw_path\<close>; the model returns the state it leaves.\<close>

definition step :: "animator \<Rightarrow> exn + animator" where
  "step self =
     (if done_flag self \<or> segments self = [] then Inr self
      else if \<not> cur_seg_i self < length (segments self) then Inl IndexError
      else
        let seg = segments self ! cur_seg_i self;
            wps = waypoints seg
        in if wps = [] then Inr (advance_segment self)
           else
             let s1 = (if pos self = None then self\<lparr>pos := Some (wps ! 0)\<rparr> else self)
             in if \<not> cur_wp_i s1 < length wps then Inl IndexError
                else
                  let target = wps ! cur_wp_i s1;
                      p = the (pos s1);
                      dist = hypot (fst target - fst p) (snd target - snd p)
                  in if dist < 1 / 10 ^ 3 then Inr (arrive s1 seg target)
                     else Inr (move_towards s1 seg p target))"

definition step_returns :: "animator \<Rightarrow> exn + point list" where
  "step_returns self = (case step self of Inl e \<Rightarrow> Inl e | Inr s \<Rightarrow> Inr (last_draw_path s))"

section \<open>Squares, pieces and boards (the python-chess values the planners read)\<close>

text \<open>
  A \<open>chess.Square\<close> is an integer 0..63 with \<open>square_file(sq) = sq & 7\<close>,
  \<open>square_rank(sq) = sq >> 3\<close> and \<open>chess.square(file, rank) = rank * 8 + file\<close>.
  On Python's integers \<open>& 7\<close> is \<open>mod 8\<close> and \<open>>> 3\<close> is floor division by 8.
\<close>

definition square_file :: "int \<Rightarrow> int" where
  "square_file sq = sq mod 8"

definition square_rank :: "int \<Rightarrow> int" where
  "square_rank sq = sq div 8"

definition chess_square :: "int \<Rightarrow> int \<Rightarrow> int" where
  "chess_square file_index rank_index = rank_index * 8 + file_index"

definition SQUARES :: "int list" where
  "SQUARES = [0..63]"

datatype piece_type = PAWN | KNIGHT | BISHOP | ROOK | QUEEN | KING

text \<open>\<open>chess.WHITE\<close> is \<open>True\<close> and \<open>chess.BLACK\<close> is \<open>False\<close>.\<close>

definition WHITE :: bool where
  "WHITE = True"

definition BLACK :: bool where
  "BLACK = False"

record piece =
  ptype :: piece_type
  color :: bool

text \<open>
  Of a \<open>chess.Board\<close> the planners read \<open>piece_at\<close> and \<open>ep_square\<close>, and they change
  copies of it with \<open>remove_piece_at\<close>.
\<close>

record board =
  piece_at :: "int \<Rightarrow> piece option"
  ep_square :: "int option"

record move =
  from_square :: int
  to_square :: int

definition remove_piece_at :: "board \<Rightarrow> int \<Rightarrow> board" where
  "remove_piece_at b sq = b\<lparr>piece_at := (piece_at b)(sq := None)\<rparr>"

definition sq_to_rc :: "int \<Rightarrow> int \<times> int" where
  "sq_to_rc sq = (square_rank sq, square_file sq)"

definition rc_to_sq :: "int \<Rightarrow> int \<Rightarrow> int" where
  "rc_to_sq r c = chess_square c r"

text \<open>The set comprehension of \<open>board_occupied_rc\<close>, as the list of its elements.\<close>

definition board_occupied_rc :: "board \<Rightarrow> (int \<times> int) set" where
  "board_occupied_rc b = set (map sq_to_rc (filter (\<lambda>sq. piece_at b sq \<noteq> None) SQUARES))"

definition is_en_passant :: "board \<Rightarrow> move \<Rightarrow> bool" where
  "is_en_passant b m =
     (case piece_at b (from_square m) of
        None \<Rightarrow> False
      | Some p \<Rightarrow>
          if ptype p \<noteq> PAWN then False
          else if square_file (from_square m) = square_file (to_square m) then False
          else piece_at b (to_square m) = None \<and> ep_square b = Some (to_square m))"

section \<open>Corridor graph (printer\_sim.py, build\_corridor\_graph)\<close>

text \<open>
  A node is the tuple \<open>(tag, r, c)\<close> of the source, the tag one of \<open>"C"\<close>, \<open>"H"\<close>, \<open>"V"\<close>.
  Python compares such tuples lexicographically, the tags as strings: \<open>"C" < "H" < "V"\<close>.
\<close>

datatype tag = C | H | V

fun tag_code :: "tag \<Rightarrow> nat" where
  "tag_code C = 67"
| "tag_code H = 72"
| "tag_code V = 86"

instantiation tag :: linorder
begin

definition less_eq_tag :: "tag \<Rightarrow> tag \<Rightarrow> bool" where
  "less_eq_tag a b \<longleftrightarrow> tag_code a \<le> tag_code b"

definition less_tag :: "tag \<Rightarrow> tag \<Rightarrow> bool" where
  "less_tag a b \<longleftrightarrow> tag_code a < tag_code b"

instance
proof
  fix x y z :: tag
  show "(x < y) = (x \<le> y \<and> \<not> y \<le> x)"
    by (auto simp: less_eq_tag_def less_tag_def)
  show "x \<le> x"
    by (simp add: less_eq_tag_def)
  show "x \<le> y \<Longrightarrow> y \<le> z \<Longrightarrow> x \<le> z"
    by (simp add: less_eq_tag_def)
  show "x \<le> y \<Longrightarrow> y \<le> x \<Longrightarrow> x = y"
    by (cases x; cases y) (simp_all add: less_eq_tag_def)
  show "x \<le> y \<or> y \<le> x"
    by (auto simp: less_eq_tag_def)
qed

end

type_synonym node = "tag \<times> int \<times> int"

text \<open>
  The set \<open>nodes\<close> and the dictionary \<open>edges\<close>, from a node to the set of its neighbours.
\<close>

type_synonym graph = "node set \<times> (node \<rightharpoonup> node set)"

definition add :: "node \<Rightarrow> graph \<Rightarrow> graph" where
  "add n gr =
     (case gr of (nodes, edges) \<Rightarrow>
        if n \<notin> nodes then (insert n nodes, edges(n \<mapsto> {})) else gr)"

text \<open>
  \<open>link\<close> reads \<open>edges[a]\<close> and then \<open>edges[b]\<close>.  In \<open>build_corridor_graph\<close>, which has
  no input, both keys were added before every call of it, so the \<open>KeyError\<close> of a missing
  key is not a branch here: a missing key stays missing.
\<close>

definition link :: "node \<Rightarrow> node \<Rightarrow> graph \<Rightarrow> graph" where
  "link a b gr =
     (case gr of (nodes, edges) \<Rightarrow>
        let e1 = edges(a := map_option (insert b) (edges a));
            e2 = e1(b := map_option (insert a) (e1 b))
        in (nodes, e2))"

definition build_corridor_graph :: graph where
  "build_corridor_graph =
     (let g1 = fold (\<lambda>r. fold (\<lambda>c. add (C, r, c)) [0..7]) [0..7] ({}, Map.empty);
          g2 = fold (\<lambda>r. fold (\<lambda>c gr.
                 let n = (H, r, c)
                 in link n (C, r, c + 1) (link n (C, r, c) (add n gr))) [0..6]) [0..7] g1;
          g3 = fold (\<lambda>r. fold (\<lambda>c gr.
                 let n = (V, r, c)
                 in link n (C, r + 1, c) (link n (C, r, c) (add n gr))) [0..7]) [0..6] g2
      in g3)"

definition NODES :: "node set" where
  "NODES = fst build_corridor_graph"

definition EDGES :: "node \<rightharpoonup> node set" where
  "EDGES = snd build_corridor_graph"

text \<open>
  The graph the three loops build, in closed form: the nodes inside the board, and for each
  of them its neighbours (listed here in ascending order).
\<close>

definition valid_node :: "node \<Rightarrow> bool" where
  "valid_node n =
     (case n of (t, r, c) \<Rightarrow>
        (case t of
           C \<Rightarrow> 0 \<le> r \<and> r \<le> 7 \<and> 0 \<le> c \<and> c \<le> 7
         | H \<Rightarrow> 0 \<le> r \<and> r \<le> 7 \<and> 0 \<le> c \<and> c \<le> 6
         | V \<Rightarrow> 0 \<le> r \<and> r \<le> 6 \<and> 0 \<le> c \<and> c \<le> 7))"

definition neighbours :: "node \<Rightarrow> node list" where
  "neighbours n =
     (case n of (t, r, c) \<Rightarrow>
        (case t of
           C \<Rightarrow> filter valid_node [(H, r, c - 1), (H, r, c), (V, r - 1, c), (V, r, c)]
         | H \<Rightarrow> [(C, r, c), (C, r, c + 1)]
         | V \<Rightarrow> [(C, r, c), (C, r + 1, c)]))"

text \<open>One round of the second and third loops: a new mid node, linked to its two centres.\<close>

definition attach ::
  "(int \<times> int \<Rightarrow> node) \<Rightarrow> (int \<times> int \<Rightarrow> node) \<Rightarrow> (int \<times> int \<Rightarrow> node) \<Rightarrow>
   int \<times> int \<Rightarrow> graph \<Rightarrow> graph" where
  "attach N e1 e2 p gr = link (N p) (e2 p) (link (N p) (e1 p) (add (N p) gr))"

lemma fold_nested:
  "fold (\<lambda>r. fold (f r) cs) rs = fold (\<lambda>p. f (fst p) (snd p)) (List.product rs cs)"
  by (induction rs) (simp_all add: fold_map comp_def)

lemma add_fold:
  "fold add ks (nodes, edges) =
     (nodes \<union> set ks, \<lambda>n. if n \<in> set ks \<and> n \<notin> nodes then Some {} else edges n)"
proof (induction ks rule: rev_induct)
  case Nil
  then show ?case by simp
next
  case (snoc k ks)
  then show ?case by (auto simp: add_def fun_eq_iff)
qed

lemma attach_step:
  assumes "N p \<notin> nodes" "edges (e1 p) = Some s1" "edges (e2 p) = Some s2"
    and "N p \<noteq> e1 p" "N p \<noteq> e2 p" "e1 p \<noteq> e2 p"
  shows "attach N e1 e2 p (nodes, edges) =
     (insert (N p) nodes,
      edges(N p \<mapsto> {e1 p, e2 p}, e1 p \<mapsto> insert (N p) s1, e2 p \<mapsto> insert (N p) s2))"
  using assms by (auto simp: attach_def add_def link_def Let_def fun_eq_iff)

lemma attach_fold:
  assumes "distinct (map N ps)"
    and "\<forall>p\<in>set ps. N p \<notin> nodes \<and> e1 p \<in> dom edges \<and> e2 p \<in> dom edges \<and> e1 p \<noteq> e2 p"
    and "\<forall>p\<in>set ps. \<forall>q\<in>set ps. N p \<noteq> e1 q \<and> N p \<noteq> e2 q"
  shows "fold (attach N e1 e2) ps (nodes, edges) =
     (nodes \<union> N ` set ps,
      \<lambda>n. if n \<in> N ` set ps then Some (\<Union>p \<in> {p \<in> set ps. N p = n}. {e1 p, e2 p})
           else map_option (\<lambda>S. S \<union> N ` {p \<in> set ps. e1 p = n \<or> e2 p = n}) (edges n))"
  using assms
proof (induction ps rule: rev_induct)
  case Nil
  then show ?case by (simp add: fun_eq_iff option.map_ident)
next
  case (snoc p ps)
  let ?E = "\<lambda>qs n. if n \<in> N ` set qs then Some (\<Union>p \<in> {p \<in> set qs. N p = n}. {e1 p, e2 p})
           else map_option (\<lambda>S. S \<union> N ` {p \<in> set qs. e1 p = n \<or> e2 p = n}) (edges n)"
  let ?s1 = "\<lambda>s. s \<union> N ` {q \<in> set ps. e1 q = e1 p \<or> e2 q = e1 p}"
  let ?s2 = "\<lambda>s. s \<union> N ` {q \<in> set ps. e1 q = e2 p \<or> e2 q = e2 p}"
  have ih: "fold (attach N e1 e2) ps (nodes, edges) = (nodes \<union> N ` set ps, ?E ps)"
    using snoc.prems by (intro snoc.IH) auto
  have fresh: "N p \<notin> nodes \<union> N ` set ps"
    using snoc.prems by auto
  have ends: "N p \<noteq> e1 p" "N p \<noteq> e2 p" "e1 p \<notin> N ` set ps" "e2 p \<notin> N ` set ps" "e1 p \<noteq> e2 p"
    using snoc.prems(2,3) by (auto simp: image_iff; metis)+
  obtain s1 s2 where e: "edges (e1 p) = Some s1" "edges (e2 p) = Some s2"
    using snoc.prems(2) by auto
  have l1: "?E ps (e1 p) = Some (?s1 s1)" and l2: "?E ps (e2 p) = Some (?s2 s2)"
    using ends e by simp_all
  have others: "\<forall>q\<in>set ps. N q \<noteq> N p \<and> N q \<noteq> e1 p \<and> N q \<noteq> e2 p \<and> N p \<noteq> e1 q \<and> N p \<noteq> e2 q"
    using snoc.prems by (auto simp: image_iff)
  have "?E (ps @ [p]) = (?E ps)(N p \<mapsto> {e1 p, e2 p},
      e1 p \<mapsto> insert (N p) (?s1 s1), e2 p \<mapsto> insert (N p) (?s2 s2))"
  proof (rule ext)
    fix n
    consider "n = N p" | "n = e1 p" | "n = e2 p" | "n \<noteq> N p" "n \<noteq> e1 p" "n \<noteq> e2 p"
      by blast
    then show "?E (ps @ [p]) n = ((?E ps)(N p \<mapsto> {e1 p, e2 p},
      e1 p \<mapsto> insert (N p) (?s1 s1), e2 p \<mapsto> insert (N p) (?s2 s2))) n"
    proof cases
      case 1
      then show ?thesis using ends others by auto
    next
      case 2
      then show ?thesis using ends others e by auto
    next
      case 3
      then show ?thesis using ends others e by auto
    next
      case 4
      then show ?thesis using ends others
        by (cases "edges n") (auto simp: image_iff)
    qed
  qed
  moreover have "fold (attach N e1 e2) (ps @ [p]) (nodes, edges) =
      (insert (N p) (nodes \<union> N ` set ps), (?E ps)(N p \<mapsto> {e1 p, e2 p},
      e1 p \<mapsto> insert (N p) (?s1 s1), e2 p \<mapsto> insert (N p) (?s2 s2)))"
    using attach_step[of N p "nodes \<union> N ` set ps" "?E ps" e1 "?s1 s1" e2 "?s2 s2",
        OF fresh l1 l2 ends(1,2,5)]
    by (simp add: ih)
  ultimately show ?case by simp
qed

lemma centres_built:
  "fold (\<lambda>r. fold (\<lambda>c. add (C, r, c)) [0..7]) [0..7] ({}, Map.empty) =
     ({n. fst n = C \<and> valid_node n}, \<lambda>n. if fst n = C \<and> valid_node n then Some {} else None)"
proof -
  have "fold (\<lambda>r. fold (\<lambda>c. add (C, r, c)) [0..7]) [0..7] =
        fold add (map (\<lambda>p. (C, fst p, snd p)) (List.product [0..7] [0..7]))"
    by (simp add: fold_nested fold_map comp_def)
  moreover have "set (map (\<lambda>p. (C, fst p, snd p)) (List.product [0..7] [0..7])) =
      {n. fst n = C \<and> valid_node n}"
    by (auto simp: valid_node_def image_iff)
  ultimately show ?thesis
    by (simp only: add_fold) (auto simp: fun_eq_iff)
qed

lemma horizontals_built:
  "fold (\<lambda>r. fold (\<lambda>c gr. let n = (H, r, c)
        in link n (C, r, c + 1) (link n (C, r, c) (add n gr))) [0..6]) [0..7]
     ({n. fst n = C \<and> valid_node n}, \<lambda>n. if fst n = C \<and> valid_node n then Some {} else None) =
   ({n. fst n \<noteq> V \<and> valid_node n},
    \<lambda>n. if fst n = H \<and> valid_node n
         then Some {(C, fst (snd n), snd (snd n)), (C, fst (snd n), snd (snd n) + 1)}
         else if fst n = C \<and> valid_node n
         then Some {m. fst m = H \<and> valid_node m \<and> fst (snd m) = fst (snd n)
                       \<and> (snd (snd m) = snd (snd n) \<or> snd (snd m) + 1 = snd (snd n))}
         else None)"
proof -
  let ?N = "\<lambda>p::int \<times> int. (H, fst p, snd p)"
  let ?e1 = "\<lambda>p::int \<times> int. (C, fst p, snd p)"
  let ?e2 = "\<lambda>p::int \<times> int. (C, fst p, snd p + 1)"
  let ?ps = "List.product [0..7] [0..6]"
  have loop: "fold (\<lambda>r. fold (\<lambda>c gr. let n = (H, r, c)
        in link n (C, r, c + 1) (link n (C, r, c) (add n gr))) [0..6]) [0..7] =
      fold (attach ?N ?e1 ?e2) ?ps"
    by (simp add: fold_nested attach_def [abs_def] Let_def)
  have d: "distinct (map ?N ?ps)"
    by (simp add: distinct_map distinct_product inj_on_def)
  show ?thesis
    unfolding loop
    apply (subst attach_fold[OF d])
      apply (auto simp: valid_node_def)[2]
    apply (simp only: prod.inject)
    apply (intro conjI ext)
    subgoal
      apply (rule set_eqI)
      subgoal for n
        apply (cases n)
        subgoal for t r c
          by (cases t) (auto simp: valid_node_def image_iff)
        done
      done
    subgoal for n
      apply (cases n)
      subgoal for t r c
        by (cases t) (auto simp: valid_node_def image_iff)
      done
    done
qed

lemma verticals_built:
  "fold (\<lambda>r. fold (\<lambda>c gr. let n = (V, r, c)
        in link n (C, r + 1, c) (link n (C, r, c) (add n gr))) [0..7]) [0..6]
   ({n. fst n \<noteq> V \<and> valid_node n},
    \<lambda>n. if fst n = H \<and> valid_node n
         then Some {(C, fst (snd n), snd (snd n)), (C, fst (snd n), snd (snd n) + 1)}
         else if fst n = C \<and> valid_node n
         then Some {m. fst m = H \<and> valid_node m \<and> fst (snd m) = fst (snd n)
                       \<and> (snd (snd m) = snd (snd n) \<or> snd (snd m) + 1 = snd (snd n))}
         else None) =
   ({n. valid_node n}, \<lambda>n. if valid_node n then Some (set (neighbours n)) else None)"
proof -
  let ?N = "\<lambda>p::int \<times> int. (V, fst p, snd p)"
  let ?e1 = "\<lambda>p::int \<times> int. (C, fst p, snd p)"
  let ?e2 = "\<lambda>p::int \<times> int. (C, fst p + 1, snd p)"
  let ?ps = "List.product [0..6] [0..7]"
  have loop: "fold (\<lambda>r. fold (\<lambda>c gr. let n = (V, r, c)
        in link n (C, r + 1, c) (link n (C, r, c) (add n gr))) [0..7]) [0..6] =
      fold (attach ?N ?e1 ?e2) ?ps"
    by (simp add: fold_nested attach_def [abs_def] Let_def)
  have d: "distinct (map ?N ?ps)"
    by (simp add: distinct_map distinct_product inj_on_def)
  show ?thesis
    unfolding loop
    apply (subst attach_fold[OF d])
      apply (auto simp: valid_node_def)[2]
    apply (simp only: prod.inject)
    apply (intro conjI ext)
    subgoal
      apply (rule set_eqI)
      subgoal for n
        apply (cases n)
        subgoal for t r c
          by (cases t) (auto simp: valid_node_def image_iff)
        done
      done
    subgoal for n
      apply (cases n)
      subgoal for t r c
      proof (cases t)
        case C
        assume n: "n = (t, r, c)"
        show ?thesis
        proof (cases "valid_node n")
          case True
          have "{m. fst m = H \<and> valid_node m \<and> fst (snd m) = r
                    \<and> (snd (snd m) = c \<or> snd (snd m) + 1 = c)}
              = {m \<in> {(H, r, c - 1), (H, r, c)}. valid_node m}"
            by auto
          moreover have "?N ` {p \<in> set ?ps. ?e1 p = n \<or> ?e2 p = n} =
              {m \<in> {(V, r - 1, c), (V, r, c)}. valid_node m}"
            using True unfolding n C by (auto simp: valid_node_def image_iff)
          ultimately show ?thesis
            using True unfolding n C by (auto simp: neighbours_def image_iff)
        next
          case False
          then show ?thesis unfolding n C by (auto simp: valid_node_def)
        qed
      qed (auto simp: valid_node_def neighbours_def image_iff)
      done
    done
qed

lemma build_corridor_graph_closed:
  "build_corridor_graph =
     ({n. valid_node n}, \<lambda>n. if valid_node n then Some (set (neighbours n)) else None)"
  unfolding build_corridor_graph_def
  by (simp only: Let_def centres_built horizontals_built [unfolded Let_def]
      verticals_built [unfolded Let_def])

lemma EDGES_lookup: "EDGES n = (if valid_node n then Some (set (neighbours n)) else None)"
  by (simp add: EDGES_def build_corridor_graph_closed)

lemma NODES_closed: "NODES = {n. valid_node n}"
  by (simp add: NODES_def build_corridor_graph_closed)

lemma finite_valid_nodes: "finite {n. valid_node n}"
proof -
  have "(UNIV :: tag set) = {C, H, V}"
    using tag.exhaust by auto
  then have "finite (UNIV :: tag set)"
    by (metis finite.emptyI finite.insertI)
  moreover have "{n. valid_node n} \<subseteq> UNIV \<times> {0..7} \<times> {0..7}"
  proof
    fix n :: node
    assume "n \<in> {n. valid_node n}"
    then show "n \<in> UNIV \<times> {0..7} \<times> {0..7}"
      by (cases n; cases "fst n") (auto simp: valid_node_def)
  qed
  ultimately show ?thesis
    by (meson finite_SigmaI finite_atLeastAtMost_int finite_subset)
qed

lemma neighbours_valid:
  assumes "valid_node n" "m \<in> set (neighbours n)"
  shows "valid_node m"
proof (cases n)
  case (fields t r c)
  show ?thesis
  proof (cases t)
    case C
    then show ?thesis using assms fields by (auto simp: neighbours_def simp del: filter.simps)
  next
    case H
    then show ?thesis using assms fields by (auto simp: neighbours_def valid_node_def)
  next
    case V
    then show ?thesis using assms fields by (auto simp: neighbours_def valid_node_def)
  qed
qed

definition node_xy :: "node \<Rightarrow> point" where
  "node_xy node =
     (case node of (t, r, c) \<Rightarrow>
        (case t of
           C \<Rightarrow> rc_to_center_xy r c
         | H \<Rightarrow>
             (case (rc_to_center_xy r c, rc_to_center_xy r (c + 1)) of
                ((x1, y1), (x2, y2)) \<Rightarrow> ((x1 + x2) / 2, (y1 + y2) / 2))
         | V \<Rightarrow>
             (case (rc_to_center_xy r c, rc_to_center_xy (r + 1) c) of
                ((x1, y1), (x2, y2)) \<Rightarrow> ((x1 + x2) / 2, (y1 + y2) / 2))))"

definition heuristic :: "node \<Rightarrow> node \<Rightarrow> real" where
  "heuristic a b =
     (case (node_xy a, node_xy b) of ((ax, ay), (bx, by)) \<Rightarrow> \<bar>ax - bx\<bar> + \<bar>ay - by\<bar>)"

section \<open>Path planner (printer\_sim.py, a\_star)\<close>

text \<open>
  \<open>heapq\<close> keeps a binary heap in a list; what the planner observes of it is that
  \<open>heappop\<close> returns the least item.  Items are pairs \<open>(f, node)\<close>, compared as Python
  compares tuples, so two items that do not compare are equal.  The heap is modelled by the
  sorted list of its items: \<open>heappush\<close> inserts in order, \<open>heappop\<close> takes the head.
\<close>

type_synonym heap = "(real \<times> node) list"

definition heappush :: "heap \<Rightarrow> real \<times> node \<Rightarrow> heap" where
  "heappush h x = insort x h"

text \<open>
  The search state: the open heap and the dictionaries \<open>came\<close> (node to predecessor, \<open>None\<close>
  for the start) and \<open>g\<close> (node to cost so far).
\<close>

type_synonym astate = "heap \<times> (node \<rightharpoonup> node option) \<times> (node \<rightharpoonup> nat)"

text \<open>
  The body of \<open>for nb in EDGES[cur]\<close>.  The blocked test comes first and \<open>continue\<close>s;
  only then is \<open>g[cur]\<close> read.  \<open>g.get(nb, 1e18)\<close> is \<open>10^18\<close> for a node not yet seen.
\<close>

definition relax ::
  "node \<Rightarrow> (int \<Rightarrow> int \<Rightarrow> bool) \<Rightarrow> node \<Rightarrow> node \<Rightarrow> astate \<Rightarrow> exn + astate" where
  "relax goal is_blocked_center cur nb st =
     (case st of (openh, came, g) \<Rightarrow>
        if fst nb = C \<and> is_blocked_center (fst (snd nb)) (snd (snd nb)) \<and> nb \<noteq> goal
        then Inr st
        else
          (case g cur of
             None \<Rightarrow> Inl KeyError
           | Some gc \<Rightarrow>
               let t = gc + 1
               in if real t < (case g nb of None \<Rightarrow> 10 ^ 18 | Some v \<Rightarrow> real v)
                  then Inr (heappush openh (real t + heuristic nb goal, nb),
                            came(nb \<mapsto> Some cur), g(nb \<mapsto> t))
                  else Inr st))"

text \<open>
  The \<open>for\<close> loop over a set of neighbours, in the order \<open>nbs\<close> lists them.
\<close>

fun for_neighbours ::
  "node \<Rightarrow> (int \<Rightarrow> int \<Rightarrow> bool) \<Rightarrow> node \<Rightarrow> node list \<Rightarrow> astate \<Rightarrow> exn + astate" where
  "for_neighbours goal blk cur [] st = Inr st"
| "for_neighbours goal blk cur (nb # nbs) st =
     (case relax goal blk cur nb st of
        Inl e \<Rightarrow> Inl e
      | Inr st' \<Rightarrow> for_neighbours goal blk cur nbs st')"

text \<open>
  The loop that rebuilds the path: \<open>while n is not None: path.append(n); n = came[n]\<close>.
  It follows \<open>came\<close> for as long as it finds predecessors, so on a cyclic \<open>came\<close> it would
  not return: the result \<open>None\<close> stands for that.
\<close>

partial_function (option) walk_back ::
  "(node \<rightharpoonup> node option) \<Rightarrow> node option \<Rightarrow> node list \<Rightarrow> (exn + node list) option" where
  "walk_back came n path =
     (case n of
        None \<Rightarrow> Some (Inr path)
      | Some m \<Rightarrow>
          (case came m of
             None \<Rightarrow> Some (Inl KeyError)
           | Some p \<Rightarrow> walk_back came p (path @ [m])))"

definition reconstruct :: "(node \<rightharpoonup> node option) \<Rightarrow> node \<Rightarrow> (exn + node list option) option" where
  "reconstruct came cur =
     (case walk_back came (Some cur) [] of
        None \<Rightarrow> None
      | Some (Inl e) \<Rightarrow> Some (Inl e)
      | Some (Inr path) \<Rightarrow> Some (Inr (Some (rev path))))"

declare walk_back.simps [code]

text \<open>
  Termination of the search loop.  Every round either leaves \<open>g\<close> alone and shortens the
  heap, or gives some node of the graph its first cost or a smaller one.
\<close>

definition neighbour_universe :: "node set" where
  "neighbour_universe = \<Union> (ran EDGES)"

definition unseen :: "(node \<rightharpoonup> nat) \<Rightarrow> nat" where
  "unseen g = card {n \<in> neighbour_universe. g n = None}"

definition cost_sum :: "(node \<rightharpoonup> nat) \<Rightarrow> nat" where
  "cost_sum g = (\<Sum>n \<in> neighbour_universe. case g n of None \<Rightarrow> 0 | Some v \<Rightarrow> v)"

definition progress :: "((node \<rightharpoonup> nat) \<times> (node \<rightharpoonup> nat)) set" where
  "progress = inv_image (less_than <*lex*> less_than) (\<lambda>g. (unseen g, cost_sum g))"

lemma neighbour_universe_valid: "neighbour_universe \<subseteq> {n. valid_node n}"
  by (auto simp: neighbour_universe_def ran_def EDGES_lookup neighbours_valid split: if_splits)

lemma finite_neighbour_universe: "finite neighbour_universe"
  using neighbour_universe_valid finite_valid_nodes by (rule finite_subset)

lemma EDGES_neighbours_listed:
  assumes "EDGES cur = Some nbs"
  shows "set (sorted_list_of_set nbs) = nbs" and "nbs \<subseteq> neighbour_universe"
proof -
  have "nbs \<in> ran EDGES"
    using assms by (rule ranI)
  then show "nbs \<subseteq> neighbour_universe"
    unfolding neighbour_universe_def by blast
  then have "finite nbs"
    using finite_neighbour_universe by (rule finite_subset)
  then show "set (sorted_list_of_set nbs) = nbs"
    by simp
qed

lemma trans_progress: "trans progress"
  unfolding progress_def by (intro trans_inv_image trans_lex_prod trans_less_than)

lemma progress_new:
  assumes "nb \<in> neighbour_universe" "g nb = None"
  shows "(g(nb \<mapsto> t), g) \<in> progress"
proof -
  have "{n \<in> neighbour_universe. (g(nb \<mapsto> t)) n = None} \<subset> {n \<in> neighbour_universe. g n = None}"
    using assms by auto
  then have "unseen (g(nb \<mapsto> t)) < unseen g"
    unfolding unseen_def by (intro psubset_card_mono) (simp_all add: finite_neighbour_universe)
  then show ?thesis by (simp add: progress_def)
qed

lemma progress_better:
  assumes "nb \<in> neighbour_universe" "g nb = Some v" "t < v"
  shows "(g(nb \<mapsto> t), g) \<in> progress"
proof -
  let ?val = "\<lambda>g n. case g n of None \<Rightarrow> 0 | Some (v::nat) \<Rightarrow> v"
  let ?rest = "neighbour_universe - {nb}"
  have same: "{n \<in> neighbour_universe. (g(nb \<mapsto> t)) n = None} = {n \<in> neighbour_universe. g n = None}"
    using assms by auto
  have rest: "(\<Sum>n \<in> ?rest. ?val (g(nb \<mapsto> t)) n) = (\<Sum>n \<in> ?rest. ?val g n)"
    by (rule sum.cong) auto
  have "cost_sum (g(nb \<mapsto> t)) = t + (\<Sum>n \<in> ?rest. ?val (g(nb \<mapsto> t)) n)"
    unfolding cost_sum_def using assms(1) finite_neighbour_universe
    by (subst sum.remove[of _ nb]) simp_all
  moreover have "cost_sum g = v + (\<Sum>n \<in> ?rest. ?val g n)"
    unfolding cost_sum_def using assms(1,2) finite_neighbour_universe
    by (subst sum.remove[of _ nb]) simp_all
  ultimately have "cost_sum (g(nb \<mapsto> t)) < cost_sum g"
    using rest assms(3) by simp
  moreover have "unseen (g(nb \<mapsto> t)) = unseen g"
    unfolding unseen_def using same by (rule arg_cong)
  ultimately show ?thesis
    by (simp add: progress_def)
qed

lemma relax_progress:
  assumes "relax goal blk cur nb (h, came, g) = Inr (h', came', g')" "nb \<in> neighbour_universe"
  shows "(h', came', g') = (h, came, g) \<or> (g', g) \<in> progress"
  using assms
  by (auto simp: relax_def Let_def progress_new progress_better split: if_splits option.splits)

lemma for_neighbours_progress:
  assumes "for_neighbours goal blk cur nbs st = Inr st'" "set nbs \<subseteq> neighbour_universe"
  shows "st' = st \<or> (snd (snd st'), snd (snd st)) \<in> progress"
  using assms
proof (induction nbs arbitrary: st)
  case Nil
  then show ?case by simp
next
  case (Cons nb nbs)
  from Cons.prems(1) obtain st1 where r: "relax goal blk cur nb st = Inr st1"
    and f: "for_neighbours goal blk cur nbs st1 = Inr st'"
    by (auto split: sum.splits)
  obtain h came g where st: "st = (h, came, g)" by (cases st)
  obtain h1 came1 g1 where st1: "st1 = (h1, came1, g1)" by (cases st1)
  from r st st1 Cons.prems(2) have a: "st1 = st \<or> (g1, g) \<in> progress"
    using relax_progress[of goal blk cur nb h came g h1 came1 g1] by simp
  from Cons.IH[OF f] Cons.prems(2) have b: "st' = st1 \<or> (snd (snd st'), g1) \<in> progress"
    by (simp add: st1)
  from a b show ?case
    using trans_progress by (auto simp: st st1 dest: transD)
qed

text \<open>
  The \<open>while openh\<close> loop.  \<open>EDGES[cur]\<close> is a set, and Python fixes no order for iterating
  it; the loop body treats each neighbour on its own and the heap pops by value, so the
  order does not show in the result.  The model visits the neighbours in ascending order.
\<close>

function a_star_loop ::
  "node \<Rightarrow> (int \<Rightarrow> int \<Rightarrow> bool) \<Rightarrow> astate \<Rightarrow> (exn + node list option) option" where
  "a_star_loop goal blk (openh, came, g) =
     (case openh of
        [] \<Rightarrow> Some (Inr None)
      | item # rest \<Rightarrow>
          let cur = snd item
          in if cur = goal then reconstruct came cur
             else
               (case EDGES cur of
                  None \<Rightarrow> Some (Inl KeyError)
                | Some nbs \<Rightarrow>
                    (case for_neighbours goal blk cur (sorted_list_of_set nbs) (rest, came, g) of
                       Inl e \<Rightarrow> Some (Inl e)
                     | Inr st' \<Rightarrow> a_star_loop goal blk st')))"
  by pat_completeness auto
termination
proof (relation "inv_image (progress <*lex*> less_than)
    (\<lambda>(goal, blk, (openh, came, g)). (g, length openh))")
  show "wf (inv_image (progress <*lex*> less_than)
      (\<lambda>(goal, blk, (openh, came, g)). (g, length openh)))"
    unfolding progress_def by (intro wf_inv_image wf_lex_prod wf_less_than)
next
  fix goal blk openh came g item rest cur nbs st'
  assume a: "openh = item # rest" "cur = snd item" "cur \<noteq> goal" "EDGES cur = Some nbs"
    "for_neighbours goal blk cur (sorted_list_of_set nbs) (rest, came, g) = Inr st'"
  have "set (sorted_list_of_set nbs) \<subseteq> neighbour_universe"
    using EDGES_neighbours_listed[OF a(4)] by simp
  from for_neighbours_progress[OF a(5) this]
  show "((goal, blk, st'), (goal, blk, openh, came, g)) \<in> inv_image (progress <*lex*> less_than)
      (\<lambda>(goal, blk, (openh, came, g)). (g, length openh))"
    using a(1) by (cases st') auto
qed

declare a_star_loop.simps [simp del]

text \<open>
  The result of \<open>a_star\<close>: \<open>None\<close> if it did not return, else the exception it raised or
  the value it returned, which is Python's \<open>None\<close> or a list of nodes.
\<close>

definition a_star ::
  "node \<Rightarrow> node \<Rightarrow> (int \<Rightarrow> int \<Rightarrow> bool) \<Rightarrow> (exn + node list option) option" where
  "a_star start goal is_blocked_center =
     a_star_loop goal is_blocked_center
       (heappush [] (0, start), [start \<mapsto> None], [start \<mapsto> 0])"

type_synonym 'a result = "(exn + 'a) option"

definition returns :: "'a \<Rightarrow> 'a result" where
  "returns x = Some (Inr x)"

definition raises :: "exn \<Rightarrow> 'a result" where
  "raises e = Some (Inl e)"

definition and_then :: "'a result \<Rightarrow> ('a \<Rightarrow> 'b result) \<Rightarrow> 'b result" where
  "and_then m f = (case m of None \<Rightarrow> None | Some (Inl e) \<Rightarrow> Some (Inl e) | Some (Inr x) \<Rightarrow> f x)"

text \<open>\<open>if not nodes: raise RuntimeError(msg)\<close>, then the nodes' points.\<close>

definition points_or_raise :: "string \<Rightarrow> node list option \<Rightarrow> point list result" where
  "points_or_raise msg nodes =
     (case nodes of
        None \<Rightarrow> raises (RuntimeError msg)
      | Some ns \<Rightarrow> if ns = [] then raises (RuntimeError msg) else returns (map node_xy ns))"

definition plan_corridor_path :: "board \<Rightarrow> int \<Rightarrow> int \<Rightarrow> point list result" where
  "plan_corridor_path b src_sq dst_sq =
     (let occ = board_occupied_rc b;
          rs = fst (sq_to_rc src_sq); cs = snd (sq_to_rc src_sq);
          rd = fst (sq_to_rc dst_sq); cd = snd (sq_to_rc dst_sq);
          start = (C, rs, cs);
          goal = (C, rd, cd);
          blocked = (\<lambda>r c. (r, c) \<in> occ \<and> \<not> (r = rs \<and> c = cs))
      in and_then (a_star start goal blocked) (points_or_raise ''No corridor path found.''))"

text \<open>
  \<open>nearest_node_to_xy\<close> iterates the set \<open>NODES\<close> and keeps the first node at the least
  distance it meets, so between nodes at the same distance the iteration order decides.
  Python does not fix that order: it is the parameter \<open>order\<close> here.
\<close>

definition nearest_node_to_xy :: "node list \<Rightarrow> point \<Rightarrow> node option" where
  "nearest_node_to_xy order xy =
     fst (fold (\<lambda>n (best, bestd).
                  let d = \<bar>fst (node_xy n) - fst xy\<bar> + \<bar>snd (node_xy n) - snd xy\<bar>
                  in if d < bestd then (Some n, d) else (best, bestd))
            order (None, 10 ^ 18))"

definition corridor_between_points ::
  "node list \<Rightarrow> board \<Rightarrow> point \<Rightarrow> point \<Rightarrow> point list result" where
  "corridor_between_points order b xy_start xy_end =
     (let occ = board_occupied_rc b
      in case (nearest_node_to_xy order xy_start, nearest_node_to_xy order xy_end) of
           (Some start, Some goal) \<Rightarrow>
             let exempt = (if fst start = C then {(fst (snd start), snd (snd start))} else {})
                        \<union> (if fst goal = C then {(fst (snd goal), snd (snd goal))} else {});
                 blocked = (\<lambda>r c. (r, c) \<in> occ \<and> (r, c) \<notin> exempt)
             in and_then (a_star start goal blocked) (points_or_raise ''No path between points.'')
         | _ \<Rightarrow> raises TypeError)"

section \<open>Knight router (printer\_sim.py, plan\_knight\_route\_on\_lines)\<close>

definition plan_knight_route_on_lines :: "board \<Rightarrow> move \<Rightarrow> point list result" where
  "plan_knight_route_on_lines b m =
     (let src = from_square m; dst = to_square m;
          r0 = fst (sq_to_rc src); c0 = snd (sq_to_rc src);
          r1 = fst (sq_to_rc dst); c1 = snd (sq_to_rc dst);
          dr = r1 - r0; dc = c1 - c0;
          x0 = fst (rc_to_center_xy r0 c0); y0 = snd (rc_to_center_xy r0 c0);
          x1 = fst (rc_to_center_xy r1 c1); y1 = snd (rc_to_center_xy r1 c1);
          half = real_of_int SQUARE * (1 / 2);
          two = real_of_int SQUARE * 2
      in if \<bar>dr\<bar> = 2 \<and> \<bar>dc\<bar> = 1
         then let dir_x = (if dc > 0 then 1 else - 1);
                  lane_x = x0 + dir_x * half;
                  dir_y = (if dr > 0 then - 1 else 1)
              in returns [(x0, y0), (lane_x, y0), (lane_x, y0 + dir_y * two), (x1, y1)]
         else if \<bar>dr\<bar> = 1 \<and> \<bar>dc\<bar> = 2
         then let dir_y = (if dr > 0 then - 1 else 1);
                  lane_y = y0 + dir_y * half;
                  dir_x = (if dc > 0 then 1 else - 1)
              in returns [(x0, y0), (x0, lane_y), (x0 + dir_x * two, lane_y), (x1, y1)]
         else plan_corridor_path b src dst)"

section \<open>Knight router in board units (pathfinder.py, PathFinder.path\_knight\_units)\<close>

definition center_of :: "int \<times> int \<Rightarrow> point" where
  "center_of fr = (real_of_int (fst fr) + 1 / 2, real_of_int (snd fr) + 1 / 2)"

definition corridor_to_x :: "real \<Rightarrow> real \<Rightarrow> point" where
  "corridor_to_x x_line y = (x_line, y)"

definition corridor_to_y :: "real \<Rightarrow> real \<Rightarrow> point" where
  "corridor_to_y x y_line = (x, y_line)"

definition path_knight_units :: "int \<times> int \<Rightarrow> int \<times> int \<Rightarrow> point list" where
  "path_knight_units fr_from fr_to =
     (let fx = fst fr_from; fy = snd fr_from;
          tx = fst fr_to; ty = snd fr_to;
          sx = fst (center_of fr_from); sy = snd (center_of fr_from);
          dx = fst (center_of fr_to); dy = snd (center_of fr_to);
          x_line = (if fx < tx then real_of_int fx + 1 else real_of_int tx + 1);
          y_line = (if fy < ty then real_of_int fy + 1 else real_of_int ty + 1)
      in [(sx, sy), corridor_to_x x_line sy, corridor_to_y x_line y_line, (dx, dy)])"

section \<open>Margin route of a captured piece (printer\_sim.py, plan\_margin\_escape\_path)\<close>

datatype board_edge = Left_edge | Right_edge | Top_edge | Bottom_edge

text \<open>Python's \<open>min(xs, key=f)\<close>: the first element of \<open>xs\<close> with the least key.\<close>

fun min_by_key :: "('a \<Rightarrow> real) \<Rightarrow> 'a \<Rightarrow> 'a list \<Rightarrow> 'a" where
  "min_by_key f best [] = best"
| "min_by_key f best (x # xs) = min_by_key f (if f x < f best then x else best) xs"

definition plan_margin_escape_path :: "point \<Rightarrow> point \<Rightarrow> point list" where
  "plan_margin_escape_path cap_xy grave_xy =
     (let cx = fst cap_xy; cy = snd cap_xy;
          x_left = real_of_int MARGIN;
          x_right = real_of_int (BOARD_PIXELS - MARGIN);
          y_top = real_of_int MARGIN;
          y_bottom = real_of_int (BOARD_PIXELS - MARGIN);
          d_left = \<bar>cx - x_left\<bar>;
          d_right = \<bar>x_right - cx\<bar>;
          d_top = \<bar>cy - y_top\<bar>;
          d_bottom = \<bar>y_bottom - cy\<bar>;
          edge = fst (min_by_key snd (Left_edge, d_left)
                        [(Right_edge, d_right), (Top_edge, d_top), (Bottom_edge, d_bottom)]);
          outside = real_of_int SQUARE * (6 / 10);
          gx = fst grave_xy; gy = snd grave_xy
      in if edge = Left_edge \<or> edge = Right_edge
         then let dir_x = (if edge = Left_edge then - 1 else 1);
                  lane_x = cx + dir_x * (real_of_int SQUARE * (1 / 2));
                  border_x = (if edge = Left_edge then x_left else x_right);
                  outside_x = border_x + dir_x * outside
              in [(cx, cy), (lane_x, cy), (outside_x, cy), (gx, cy), (gx, gy)]
         else let dir_y = (if edge = Top_edge then - 1 else 1);
                  lane_y = cy + dir_y * (real_of_int SQUARE * (1 / 2));
                  border_y = (if edge = Top_edge then y_top else y_bottom);
                  outside_y = border_y + dir_y * outside
              in [(cx, cy), (cx, lane_y), (cx, outside_y), (cx, gy), (gx, gy)])"

section \<open>Graveyard slots (printer\_sim.py, init\_grave\_positions and next\_grave\_xy)\<close>

text \<open>
  The module's mutable globals: the slot grid and the two lists of the slots handed to
  captured white and black pieces.
\<close>

record globals =
  grave_positions :: "point list"
  captured_white :: "point list"
  captured_black :: "point list"

definition GRAVE_COLS :: int where
  "GRAVE_COLS = 2"

definition globals_initial :: globals where
  "globals_initial = \<lparr>grave_positions = [], captured_white = [], captured_black = []\<rparr>"

definition init_grave_positions :: "globals \<Rightarrow> globals" where
  "init_grave_positions gs =
     (let col_w = real_of_int SIDEBAR_W / real_of_int GRAVE_COLS;
          x0 = real_of_int BOARD_PIXELS;
          y0 = real_of_int MARGIN
      in gs\<lparr>grave_positions :=
              concat (map (\<lambda>r. map (\<lambda>c.
                 (x0 + real_of_int c * col_w + col_w / 2,
                  y0 + real_of_int r * (real_of_int SQUARE * (9 / 10))
                     + real_of_int SQUARE * (45 / 100)))
                 [0..GRAVE_COLS - 1]) [0..9])\<rparr>)"

definition next_grave_xy :: "globals \<Rightarrow> bool \<Rightarrow> point" where
  "next_grave_xy gs col =
     (let arr = (if col = WHITE then captured_white gs else captured_black gs);
          idx = length arr
      in if idx < length (grave_positions gs) then grave_positions gs ! idx
         else (real_of_int BOARD_PIXELS + real_of_int SIDEBAR_W / 2,
               real_of_int (WIN_H - INPUT_H - 20) - real idx * 10))"

text \<open>
  What \<open>main\<close> does with the slot once a capture is planned: it appends it to the list of
  the captured piece's colour.
\<close>

definition record_capture :: "globals \<Rightarrow> bool \<Rightarrow> point \<Rightarrow> globals" where
  "record_capture gs cap_color cap_xy =
     (if cap_color = WHITE then gs\<lparr>captured_white := captured_white gs @ [cap_xy]\<rparr>
      else gs\<lparr>captured_black := captured_black gs @ [cap_xy]\<rparr>)"

text \<open>The slots a game hands out, for the colours of the pieces captured in it, in order.\<close>

fun capture_slots :: "globals \<Rightarrow> bool list \<Rightarrow> point list" where
  "capture_slots gs [] = []"
| "capture_slots gs (col # cols) =
     (let xy = next_grave_xy gs col in xy # capture_slots (record_capture gs col xy) cols)"

section \<open>Graveyard slots in board units (pathfinder.py, CaptureGraveyard)\<close>

record capture_graveyard =
  margin :: real
  spacing :: real
  count :: nat

definition capture_graveyard_init :: "real \<Rightarrow> real \<Rightarrow> capture_graveyard" where
  "capture_graveyard_init margin_units spacing_units =
     \<lparr>margin = margin_units, spacing = spacing_units, count = 0\<rparr>"

definition next_slot :: "capture_graveyard \<Rightarrow> point \<times> capture_graveyard" where
  "next_slot self =
     (let col = count self div 8;
          row = count self mod 8;
          x = 8 + margin self + 1 / 2 + real col * (9 / 10);
          y = 1 / 2 + real row * spacing self
      in ((x, y), self\<lparr>count := count self + 1\<rparr>))"

section \<open>Sequencers (printer\_sim.py, plan\_capture\_sequence, plan\_normal\_move, plan\_castling)\<close>

definition seg :: "point list \<Rightarrow> bool \<Rightarrow> segment" where
  "seg wps on = \<lparr>waypoints = wps, magnet_on = on\<rparr>"

definition square_center :: "int \<Rightarrow> point" where
  "square_center sq = rc_to_center_xy (fst (sq_to_rc sq)) (snd (sq_to_rc sq))"

text \<open>The own piece's route: the knight router for a knight, the planner otherwise.\<close>

definition own_piece_path :: "board \<Rightarrow> board \<Rightarrow> move \<Rightarrow> point list result" where
  "own_piece_path b planning_board m =
     (case piece_at b (from_square m) of
        None \<Rightarrow> plan_corridor_path planning_board (from_square m) (to_square m)
      | Some p \<Rightarrow>
          if ptype p = KNIGHT then plan_knight_route_on_lines planning_board m
          else plan_corridor_path planning_board (from_square m) (to_square m))"

definition plan_capture_sequence ::
  "node list \<Rightarrow> globals \<Rightarrow> board \<Rightarrow> move \<Rightarrow> (segment list \<times> bool \<times> point) result" where
  "plan_capture_sequence order gs b m =
     (let src = from_square m; dst = to_square m;
          temp = b;
          cap_sq = (if is_en_passant b m
                    then chess_square (square_file dst) (square_rank src)
                    else dst);
          captured_piece = piece_at b cap_sq;
          captured_color = (case captured_piece of Some p \<Rightarrow> color p | None \<Rightarrow> WHITE)
      in and_then (plan_corridor_path b src cap_sq) (\<lambda>path_to_target.
           if path_to_target = [] then raises (RuntimeError ''No path to captured piece.'')
           else
             let cap_xy = square_center cap_sq;
                 grave_xy = next_grave_xy gs captured_color;
                 temp = remove_piece_at temp cap_sq;
                 margin_path0 = plan_margin_escape_path cap_xy grave_xy;
                 margin_path = (if margin_path0 = [] then [cap_xy, grave_xy] else margin_path0);
                 src_xy = square_center src
             in and_then (corridor_between_points order temp grave_xy src_xy) (\<lambda>path_back.
                  and_then (own_piece_path b temp m) (\<lambda>path_src_to_dst.
                    if path_src_to_dst = [] then raises IndexError
                    else returns
                      ([seg path_to_target False,
                        seg [last path_to_target] True,
                        seg margin_path True,
                        seg [last margin_path] False,
                        seg path_back False,
                        seg path_src_to_dst True,
                        seg [last path_src_to_dst] False],
                       captured_color, grave_xy)))))"

definition plan_normal_move :: "board \<Rightarrow> move \<Rightarrow> segment list result" where
  "plan_normal_move b m =
     and_then (own_piece_path b b m) (\<lambda>path.
       if path = [] then raises IndexError
       else returns [seg path True, seg [last path] False])"

text \<open>\<open>chess.FILE_NAMES.index(ch)\<close>, for a file letter.\<close>

definition FILE_NAMES :: string where
  "FILE_NAMES = ''abcdefgh''"

definition file_index :: "char \<Rightarrow> int" where
  "file_index ch = int (length (takeWhile (\<lambda>x. x \<noteq> ch) FILE_NAMES))"

text \<open>
  \<open>tmp.push(chess.Move(rook_from, rook_to))\<close> is python-chess's; the planner only plans on
  the board it leaves, so \<open>push\<close> is a parameter: any function from a board and a move to
  a board, or to an exception.
\<close>

definition plan_castling ::
  "(board \<Rightarrow> move \<Rightarrow> board result) \<Rightarrow> board \<Rightarrow> move \<Rightarrow> segment list result" where
  "plan_castling push b m =
     (let src = from_square m; dst = to_square m;
          king_rank = square_rank src;
          kingside = (square_file dst > square_file src);
          rook_from = (if kingside then chess_square (file_index CHR ''h'') king_rank
                       else chess_square (file_index CHR ''a'') king_rank);
          rook_to = (if kingside then chess_square (file_index CHR ''f'') king_rank
                     else chess_square (file_index CHR ''d'') king_rank)
      in and_then (plan_corridor_path b rook_from rook_to) (\<lambda>rook_path.
           and_then (push b \<lparr>from_square = rook_from, to_square = rook_to\<rparr>) (\<lambda>tmp.
             and_then (plan_corridor_path tmp src dst) (\<lambda>king_path.
               if rook_path = [] \<or> king_path = [] then raises IndexError
               else returns
                 [seg rook_path True,
                  seg [last rook_path] False,
                  seg king_path True,
                  seg [last king_path] False]))))"

section \<open>The animator at rest\<close>

text \<open>
  C10.  Once the done flag is set, \<open>step\<close> changes no field of the animator (position,
  segment index, waypoint index, done flag, trace), returns the trace as it stands, and
  \<open>current_magnet_on\<close> is false.  Loading a plan with no segment sets the flag at once.
\<close>

theorem step_when_done_is_identity:
  "(done_flag a \<longrightarrow>
      step a = Inr a \<and> step_returns a = Inr (last_draw_path a) \<and> current_magnet_on a = Inr False)
   \<and> done_flag (load b [] sp)"
  by (simp add: step_def step_returns_def current_magnet_on_def load_def)

theorem step_when_done_is_identity_witness:
  "done_flag (load animator_init [] None)
   \<and> step (load animator_init [] None) = Inr (load animator_init [] None)
   \<and> step_returns (load animator_init [] None) = Inr (last_draw_path (load animator_init [] None))
   \<and> current_magnet_on (load animator_init [] None) = Inr False"
  using step_when_done_is_identity [of "load animator_init [] None" animator_init None]
  by simp

section \<open>Routes on corridor lines\<close>

definition knight_offset :: "int \<Rightarrow> int \<Rightarrow> bool" where
  "knight_offset src dst =
     (let dr = square_rank dst - square_rank src; dc = square_file dst - square_file src
      in (\<bar>dr\<bar> = 2 \<and> \<bar>dc\<bar> = 1) \<or> (\<bar>dr\<bar> = 1 \<and> \<bar>dc\<bar> = 2))"

definition file_line :: "int \<Rightarrow> real" where
  "file_line k = real_of_int (MARGIN + k * SQUARE)"

definition rank_line :: "int \<Rightarrow> real" where
  "rank_line k = real_of_int (MARGIN + (8 - k) * SQUARE)"

lemma file_range: "0 \<le> square_file sq \<and> square_file sq \<le> 7"
  by (simp add: square_file_def)

lemma rank_range: "0 \<le> sq \<Longrightarrow> sq < 64 \<Longrightarrow> 0 \<le> square_rank sq \<and> square_rank sq \<le> 7"
  unfolding square_rank_def by presburger

definition empty_board :: board where
  "empty_board = \<lparr>piece_at = (\<lambda>sq. None), ep_square = None\<rparr>"

lemma neighbours_sorted_distinct: "sorted (neighbours n) \<and> distinct (neighbours n)"
proof (cases n)
  case (fields t r c)
  have "sorted (map (\<lambda>x. x) (filter valid_node [(H, r, c - 1), (H, r, c), (V, r - 1, c), (V, r, c)]))"
    by (rule sorted_filter) (simp add: less_eq_tag_def less_tag_def)
  then have "sorted (filter valid_node [(H, r, c - 1), (H, r, c), (V, r - 1, c), (V, r, c)])"
    by (simp del: filter.simps)
  moreover have "distinct (filter valid_node [(H, r, c - 1), (H, r, c), (V, r - 1, c), (V, r, c)])"
    by (rule distinct_filter) simp
  ultimately show ?thesis
    using fields by (cases t) (simp_all add: neighbours_def less_eq_tag_def less_tag_def del: filter.simps)
qed

lemma neighbours_listed: "sorted_list_of_set (set (neighbours n)) = neighbours n"
  using neighbours_sorted_distinct[of n]
  by (simp add: sorted_list_of_set.idem_if_sorted_distinct)

lemmas geometry = rc_to_center_xy_def SQUARE_def MARGIN_def BOARD_PIXELS_initial_def
  BOARD_PIXELS_def SIDEBAR_W_def INCH_PX_def INPUT_H_def WIN_H_def WIN_W_def

lemmas a_star_eval =
  a_star_def heappush_def reconstruct_def walk_back.simps EDGES_lookup
  neighbours_listed neighbours_def valid_node_def relax_def heuristic_def node_xy_def
  geometry Let_def less_eq_tag_def less_tag_def a_star_loop.simps

lemma knight_route_vertical_exact:
  assumes "square_rank (to_square m) = square_rank (from_square m) + dr"
    and "square_file (to_square m) = square_file (from_square m) + dc"
    and "dr = 2 \<or> dr = - 2" "dc = 1 \<or> dc = - 1"
  shows "plan_knight_route_on_lines b m = returns
           [square_center (from_square m),
            (file_line (max (square_file (from_square m)) (square_file (to_square m))),
             snd (square_center (from_square m))),
            (file_line (max (square_file (from_square m)) (square_file (to_square m))),
             snd (square_center (to_square m))),
            square_center (to_square m)]"
proof -
  have "dr = 2 \<and> dc = 1 \<or> dr = 2 \<and> dc = - 1 \<or> dr = - 2 \<and> dc = 1 \<or> dr = - 2 \<and> dc = - 1"
    using assms(3,4) by blast
  then show ?thesis
    by (elim disjE conjE)
      (simp_all add: plan_knight_route_on_lines_def Let_def sq_to_rc_def square_center_def
        file_line_def geometry assms(1,2))
qed

lemma knight_route_horizontal_exact:
  assumes "square_rank (to_square m) = square_rank (from_square m) + dr"
    and "square_file (to_square m) = square_file (from_square m) + dc"
    and "dr = 1 \<or> dr = - 1" "dc = 2 \<or> dc = - 2"
  shows "plan_knight_route_on_lines b m = returns
           [square_center (from_square m),
            (fst (square_center (from_square m)),
             rank_line (max (square_rank (from_square m)) (square_rank (to_square m)))),
            (fst (square_center (to_square m)),
             rank_line (max (square_rank (from_square m)) (square_rank (to_square m)))),
            square_center (to_square m)]"
proof -
  have "dr = 1 \<and> dc = 2 \<or> dr = 1 \<and> dc = - 2 \<or> dr = - 1 \<and> dc = 2 \<or> dr = - 1 \<and> dc = - 2"
    using assms(3,4) by blast
  then show ?thesis
    by (elim disjE conjE)
      (simp_all add: plan_knight_route_on_lines_def Let_def sq_to_rc_def square_center_def
        rank_line_def geometry assms(1,2))
qed

lemma path_knight_units_exact:
  "path_knight_units (c0, r0) (c1, r1) =
     [center_of (c0, r0),
      (real_of_int (min c0 c1 + 1), snd (center_of (c0, r0))),
      (real_of_int (min c0 c1 + 1), real_of_int (min r0 r1 + 1)),
      center_of (c1, r1)]"
  by (simp add: path_knight_units_def Let_def corridor_to_x_def corridor_to_y_def min_def)

text \<open>
  C5.  For a move between two squares of the board at a knight's offset, whatever the
  board holds, \<open>plan_knight_route_on_lines\<close> returns exactly these four points.  When
  the move spans two ranks: the source centre, the point at the source's height on the
  grid line between the source's file and the destination's (\<open>file_line k\<close> with \<open>k\<close> the
  larger of the two neighbouring files, so half a square beside the source), the point on
  that same line at the destination's height (two squares along it), and the destination
  centre.  When the move spans two files: the same with the grid line between the two
  neighbouring ranks (\<open>rank_line k\<close>) and the source's and destination's x coordinates.
  The lines used are interior grid lines, \<open>1 \<le> k \<le> 7\<close>.

  \<open>PathFinder.path_knight_units\<close>, in board units, also returns four points that begin
  and end at the two centres and whose middle points lie on grid lines, but they are other
  points: the first is at the source's height on the vertical line \<open>x = min c0 c1 + 1\<close>,
  the second is the crossing of that line with the horizontal line \<open>y = min r0 r1 + 1\<close>.
  So its first leg is horizontal (half a square, or one and a half when the source is the
  right-hand square of a two-file move), its second leg runs along the vertical line to the
  crossing, and its last leg leaves the lines and goes straight to the destination centre.
\<close>

theorem knight_router_exact_route:
  assumes "0 \<le> from_square m" "from_square m < 64" "0 \<le> to_square m" "to_square m < 64"
    and "knight_offset (from_square m) (to_square m)"
    and "r0 = square_rank (from_square m)" "c0 = square_file (from_square m)"
    and "r1 = square_rank (to_square m)" "c1 = square_file (to_square m)"
  shows "(\<bar>r1 - r0\<bar> = 2 \<longrightarrow>
            max c0 c1 = min c0 c1 + 1 \<and> 1 \<le> max c0 c1 \<and> max c0 c1 \<le> 7
            \<and> plan_knight_route_on_lines b m = returns
                  [square_center (from_square m),
                   (file_line (max c0 c1), snd (square_center (from_square m))),
                   (file_line (max c0 c1), snd (square_center (to_square m))),
                   square_center (to_square m)])
       \<and> (\<bar>r1 - r0\<bar> = 1 \<longrightarrow>
            max r0 r1 = min r0 r1 + 1 \<and> 1 \<le> max r0 r1 \<and> max r0 r1 \<le> 7
            \<and> plan_knight_route_on_lines b m = returns
                  [square_center (from_square m),
                   (fst (square_center (from_square m)), rank_line (max r0 r1)),
                   (fst (square_center (to_square m)), rank_line (max r0 r1)),
                   square_center (to_square m)])
       \<and> 1 \<le> min c0 c1 + 1 \<and> min c0 c1 + 1 \<le> 7 \<and> 1 \<le> min r0 r1 + 1 \<and> min r0 r1 + 1 \<le> 7
       \<and> path_knight_units (c0, r0) (c1, r1) =
            [center_of (c0, r0),
             (real_of_int (min c0 c1 + 1), snd (center_of (c0, r0))),
             (real_of_int (min c0 c1 + 1), real_of_int (min r0 r1 + 1)),
             center_of (c1, r1)]"
proof -
  have c: "0 \<le> c0" "c0 \<le> 7" "0 \<le> c1" "c1 \<le> 7"
    using file_range[of "from_square m"] file_range[of "to_square m"] assms(7,9) by simp_all
  have r: "0 \<le> r0" "r0 \<le> 7" "0 \<le> r1" "r1 \<le> 7"
    using rank_range[OF assms(1,2)] rank_range[OF assms(3,4)] assms(6,8) by simp_all
  from assms(5) have k: "(\<bar>r1 - r0\<bar> = 2 \<and> \<bar>c1 - c0\<bar> = 1) \<or> (\<bar>r1 - r0\<bar> = 1 \<and> \<bar>c1 - c0\<bar> = 2)"
    unfolding knight_offset_def Let_def assms(6-9) by simp
  have eqs: "square_rank (to_square m) = square_rank (from_square m) + (r1 - r0)"
            "square_file (to_square m) = square_file (from_square m) + (c1 - c0)"
    using assms(6-9) by simp_all
  have vertical: "plan_knight_route_on_lines b m = returns
                  [square_center (from_square m),
                   (file_line (max c0 c1), snd (square_center (from_square m))),
                   (file_line (max c0 c1), snd (square_center (to_square m))),
                   square_center (to_square m)]"
    if "\<bar>r1 - r0\<bar> = 2"
  proof -
    from that k have "r1 - r0 = 2 \<or> r1 - r0 = - 2" "c1 - c0 = 1 \<or> c1 - c0 = - 1" by presburger+
    from knight_route_vertical_exact[OF eqs this] show ?thesis
      unfolding assms(6-9) .
  qed
  have horizontal: "plan_knight_route_on_lines b m = returns
                  [square_center (from_square m),
                   (fst (square_center (from_square m)), rank_line (max r0 r1)),
                   (fst (square_center (to_square m)), rank_line (max r0 r1)),
                   square_center (to_square m)]"
    if "\<bar>r1 - r0\<bar> = 1"
  proof -
    from that k have "r1 - r0 = 1 \<or> r1 - r0 = - 1" "c1 - c0 = 2 \<or> c1 - c0 = - 2" by presburger+
    from knight_route_horizontal_exact[OF eqs this] show ?thesis
      unfolding assms(6-9) .
  qed
  have v_line: "max c0 c1 = min c0 c1 + 1 \<and> 1 \<le> max c0 c1 \<and> max c0 c1 \<le> 7" if "\<bar>r1 - r0\<bar> = 2"
    using that k c by linarith
  have h_line: "max r0 r1 = min r0 r1 + 1 \<and> 1 \<le> max r0 r1 \<and> max r0 r1 \<le> 7" if "\<bar>r1 - r0\<bar> = 1"
    using that k r by linarith
  have bounds: "1 \<le> min c0 c1 + 1 \<and> min c0 c1 + 1 \<le> 7 \<and> 1 \<le> min r0 r1 + 1 \<and> min r0 r1 + 1 \<le> 7"
    using k c r by linarith
  show ?thesis
    using vertical horizontal v_line h_line bounds path_knight_units_exact[of c0 r0 c1 r1]
    by blast
qed



lemma b1_c3: "square_rank 1 = 0" "square_file 1 = 1" "square_rank 18 = 2" "square_file 18 = 2"
  "knight_offset 1 18"
  by (simp_all add: knight_offset_def square_file_def square_rank_def)

theorem knight_router_exact_route_witness:
  "knight_offset 1 18
   \<and> plan_knight_route_on_lines empty_board \<lparr>from_square = 1, to_square = 18\<rparr> =
       returns [(140, 572), (176, 572), (176, 428), (212, 428)]
   \<and> file_line 2 = 176
   \<and> path_knight_units (1, 0) (2, 2) = [(3 / 2, 1 / 2), (2, 1 / 2), (2, 1), (5 / 2, 5 / 2)]"
proof -
  have "0 \<le> from_square \<lparr>from_square = 1, to_square = 18\<rparr>"
       "from_square \<lparr>from_square = 1, to_square = 18\<rparr> < 64"
       "0 \<le> to_square \<lparr>from_square = 1, to_square = 18\<rparr>"
       "to_square \<lparr>from_square = 1, to_square = 18\<rparr> < 64"
       "knight_offset (from_square \<lparr>from_square = 1, to_square = 18\<rparr>)
          (to_square \<lparr>from_square = 1, to_square = 18\<rparr>)"
       "0 = square_rank (from_square \<lparr>from_square = 1, to_square = 18\<rparr>)"
       "1 = square_file (from_square \<lparr>from_square = 1, to_square = 18\<rparr>)"
       "2 = square_rank (to_square \<lparr>from_square = 1, to_square = 18\<rparr>)"
       "2 = square_file (to_square \<lparr>from_square = 1, to_square = 18\<rparr>)"
    by (simp_all add: b1_c3)
  from knight_router_exact_route [OF this, of empty_board]
  show ?thesis
    by (simp add: b1_c3 square_center_def sq_to_rc_def file_line_def center_of_def geometry)
qed

text \<open>
  C6 as stated fails: for a move that is not at a knight's offset the router raises
  nothing.  From a1 to a2 on the empty board it returns the planner's three-point route.
\<close>

theorem knight_router_reroutes_counterexample:
  "\<not> knight_offset 0 8
   \<and> plan_knight_route_on_lines empty_board \<lparr>from_square = 0, to_square = 8\<rparr> =
       returns [(68, 572), (68, 536), (68, 500)]"
  by (simp add: knight_offset_def plan_knight_route_on_lines_def plan_corridor_path_def
      board_occupied_rc_def empty_board_def sq_to_rc_def square_file_def square_rank_def
      and_then_def points_or_raise_def returns_def a_star_eval)

text \<open>
  C6, amended.  For a move that is not at a knight's offset \<open>plan_knight_route_on_lines\<close>
  asserts nothing: it is \<open>plan_corridor_path\<close> on the same board and squares, whose route
  it returns and whose \<open>RuntimeError\<close> it raises.  \<open>path_knight_units\<close> checks nothing
  either and returns four points for every pair of squares.
\<close>

theorem knight_router_falls_back:
  assumes "\<not> knight_offset (from_square m) (to_square m)"
  shows "plan_knight_route_on_lines b m = plan_corridor_path b (from_square m) (to_square m)
       \<and> length (path_knight_units fr_from fr_to) = 4"
  using assms
  by (auto simp: knight_offset_def plan_knight_route_on_lines_def Let_def sq_to_rc_def
      path_knight_units_def)

theorem knight_router_falls_back_witness:
  "\<not> knight_offset 0 8
   \<and> plan_knight_route_on_lines empty_board \<lparr>from_square = 0, to_square = 8\<rparr> =
       plan_corridor_path empty_board 0 8
   \<and> length (path_knight_units (0, 0) (0, 1)) = 4"
  using knight_router_falls_back [of "\<lparr>from_square = 0, to_square = 8\<rparr>" empty_board "(0, 0)" "(0, 1)"]
  by (simp add: knight_offset_def square_file_def square_rank_def)

definition in_play_area :: "point \<Rightarrow> bool" where
  "in_play_area p =
     (real_of_int MARGIN < fst p \<and> fst p < real_of_int (BOARD_PIXELS - MARGIN)
      \<and> real_of_int MARGIN < snd p \<and> snd p < real_of_int (BOARD_PIXELS - MARGIN))"

lemma grave_positions_initial:
  "grave_positions (init_grave_positions gs) =
     [(664, 644 / 10), (712, 644 / 10), (664, 1292 / 10), (712, 1292 / 10),
      (664, 1940 / 10), (712, 1940 / 10), (664, 2588 / 10), (712, 2588 / 10),
      (664, 3236 / 10), (712, 3236 / 10), (664, 3884 / 10), (712, 3884 / 10),
      (664, 4532 / 10), (712, 4532 / 10), (664, 5180 / 10), (712, 5180 / 10),
      (664, 5828 / 10), (712, 5828 / 10), (664, 6476 / 10), (712, 6476 / 10)]"
proof -
  have "[0..9] = [0, 1, 2, 3, 4, 5, 6, 7, 8, 9 :: int]" "[0..GRAVE_COLS - 1] = [0, 1]"
    by (simp_all add: GRAVE_COLS_def upto_rec1)
  then show ?thesis
    by (simp add: init_grave_positions_def Let_def GRAVE_COLS_def geometry)
qed

lemma init_grave_positions_keeps_lists:
  "captured_white (init_grave_positions gs) = captured_white gs"
  "captured_black (init_grave_positions gs) = captured_black gs"
  by (simp_all add: init_grave_positions_def Let_def)

text \<open>
  C7 on the code: a piece captured on e8 is nearest the top edge.  The route leaves the
  board upwards and then turns back: its fourth waypoint \<open>(cx, gy)\<close> lies in e8 again,
  inside the play area, on the way to the first slot.
\<close>

theorem margin_route_reenters_board:
  "plan_margin_escape_path (square_center 60) (next_grave_xy (init_grave_positions globals_initial) BLACK)
     = [(356, 68), (356, 32), (356, - 112 / 10), (356, 644 / 10), (664, 644 / 10)]
   \<and> in_play_area (plan_margin_escape_path (square_center 60)
         (next_grave_xy (init_grave_positions globals_initial) BLACK) ! 3)"
  by (simp add: plan_margin_escape_path_def next_grave_xy_def grave_positions_initial
      init_grave_positions_keeps_lists globals_initial_def BLACK_def WHITE_def
      square_center_def sq_to_rc_def square_file_def square_rank_def in_play_area_def
      geometry Let_def)

text \<open>
  C8 on the code: both colours index the same grid by their own count, so the first black
  piece captured and the first white piece captured are sent to the same point.
\<close>

theorem slot_shared_by_both_colours:
  "capture_slots (init_grave_positions globals_initial) [BLACK, WHITE] =
     [(664, 644 / 10), (664, 644 / 10)]"
  by (simp add: next_grave_xy_def record_capture_def grave_positions_initial
      init_grave_positions_keeps_lists globals_initial_def BLACK_def WHITE_def Let_def)

section \<open>Soundness of the path planner\<close>

definition corridor_edge :: "node \<Rightarrow> node \<Rightarrow> bool" where
  "corridor_edge a b = (case EDGES a of None \<Rightarrow> False | Some nbs \<Rightarrow> b \<in> nbs)"

definition passable :: "node \<Rightarrow> (int \<Rightarrow> int \<Rightarrow> bool) \<Rightarrow> node \<Rightarrow> bool" where
  "passable goal blk n = (\<not> (fst n = C \<and> blk (fst (snd n)) (snd (snd n)) \<and> n \<noteq> goal))"

definition is_route :: "(int \<Rightarrow> int \<Rightarrow> bool) \<Rightarrow> node \<Rightarrow> node \<Rightarrow> node list \<Rightarrow> bool" where
  "is_route blk start goal path =
     (path \<noteq> [] \<and> hd path = start \<and> last path = goal \<and> successively corridor_edge path
      \<and> list_all (passable goal blk) (tl path))"

definition search_inv :: "node \<Rightarrow> node \<Rightarrow> (int \<Rightarrow> int \<Rightarrow> bool) \<Rightarrow> astate \<Rightarrow> bool" where
  "search_inv start goal blk st =
     (case st of (openh, came, g) \<Rightarrow>
        came start = Some None \<and> g start = Some 0
        \<and> dom came = dom g
        \<and> (\<forall>n. came n = Some None \<longrightarrow> n = start)
        \<and> (\<forall>n p. came n = Some (Some p) \<longrightarrow>
              corridor_edge p n \<and> passable goal blk n
              \<and> (\<exists>gp gn. g p = Some gp \<and> g n = Some gn \<and> gp < gn))
        \<and> (\<forall>item \<in> set openh. g (snd item) \<noteq> None \<and> valid_node (snd item)))"

definition back_chain :: "node \<Rightarrow> node \<Rightarrow> (int \<Rightarrow> int \<Rightarrow> bool) \<Rightarrow> node \<Rightarrow> node list \<Rightarrow> bool" where
  "back_chain start goal blk n ch =
     (ch \<noteq> [] \<and> hd ch = n \<and> last ch = start \<and> successively (\<lambda>a b. corridor_edge b a) ch
      \<and> list_all (passable goal blk) (butlast ch))"

lemma search_invD:
  assumes "search_inv start goal blk (openh, came, g)"
  shows "came start = Some None" and "g start = Some 0" and "dom came = dom g"
    and "\<And>n. came n = Some None \<Longrightarrow> n = start"
    and "\<And>n p. came n = Some (Some p) \<Longrightarrow>
          corridor_edge p n \<and> passable goal blk n
          \<and> (\<exists>gp gn. g p = Some gp \<and> g n = Some gn \<and> gp < gn)"
    and "\<And>item. item \<in> set openh \<Longrightarrow> g (snd item) \<noteq> None \<and> valid_node (snd item)"
  using assms unfolding search_inv_def by blast+

lemma tl_rev: "tl (rev xs) = rev (butlast xs)"
  by (induction xs rule: rev_induct) simp_all

lemma corridor_edge_valid: "corridor_edge a b \<Longrightarrow> valid_node a \<and> valid_node b"
  by (auto simp: corridor_edge_def EDGES_lookup neighbours_valid split: if_splits)

lemma walk_back_chain:
  assumes "search_inv start goal blk (openh, came, g)"
  shows "g n = Some k \<Longrightarrow>
     \<exists>ch. walk_back came (Some n) acc = Some (Inr (acc @ ch)) \<and> back_chain start goal blk n ch"
proof (induction k arbitrary: n acc rule: less_induct)
  case (less k)
  note inv = search_invD[OF assms]
  from inv(3) less.prems have "came n \<noteq> None"
    by blast
  then obtain pred where pred: "came n = Some pred" by auto
  show ?case
  proof (cases pred)
    case None
    with pred inv(4) have "n = start" by blast
    then have "walk_back came (Some n) acc = Some (Inr (acc @ [n]))" "back_chain start goal blk n [n]"
      using pred None by (simp_all add: walk_back.simps back_chain_def)
    then show ?thesis by blast
  next
    case (Some p)
    with pred inv(5)[of n p] less.prems obtain gp where p: "corridor_edge p n" "passable goal blk n"
      "g p = Some gp" "gp < k"
      by auto
    from less.IH[OF p(4) p(3), of "acc @ [n]"] obtain ch where
      ch: "walk_back came (Some p) (acc @ [n]) = Some (Inr ((acc @ [n]) @ ch))"
        "back_chain start goal blk p ch"
      by blast
    have "walk_back came (Some n) acc = Some (Inr (acc @ n # ch))"
      using pred Some ch(1) by (subst walk_back.simps) simp
    moreover have "back_chain start goal blk n (n # ch)"
      using ch(2) p(1,2) by (cases ch) (auto simp: back_chain_def)
    ultimately show ?thesis by blast
  qed
qed

lemma back_chain_route:
  assumes "back_chain start goal blk goal ch"
  shows "is_route blk start goal (rev ch)"
  using assms
  by (simp add: back_chain_def is_route_def hd_rev last_rev tl_rev list_all_iff)

lemma search_invI:
  assumes "came start = Some None" and "g start = Some 0" and "dom came = dom g"
    and "\<And>n. came n = Some None \<Longrightarrow> n = start"
    and "\<And>n p. came n = Some (Some p) \<Longrightarrow>
          corridor_edge p n \<and> passable goal blk n
          \<and> (\<exists>gp gn. g p = Some gp \<and> g n = Some gn \<and> gp < gn)"
    and "\<And>item. item \<in> set openh \<Longrightarrow> g (snd item) \<noteq> None \<and> valid_node (snd item)"
  shows "search_inv start goal blk (openh, came, g)"
  using assms unfolding search_inv_def by blast

lemma relax_update_inv:
  assumes inv: "search_inv start goal blk (h, came, g)"
    and edge: "corridor_edge cur nb" and pass: "passable goal blk nb"
    and gc: "g cur = Some gc"
    and better: "g nb = None \<or> (\<exists>v. g nb = Some v \<and> gc + 1 < v)"
  shows "search_inv start goal blk
           (heappush h (f, nb), came(nb \<mapsto> Some cur), g(nb \<mapsto> gc + 1))"
proof -
  note i = search_invD[OF inv]
  have nb_start: "nb \<noteq> start"
    using better i(2) by auto
  have nb_cur: "nb \<noteq> cur"
    using better gc by auto
  show ?thesis
    unfolding heappush_def
  proof (rule search_invI)
    show "(came(nb \<mapsto> Some cur)) start = Some None"
      using nb_start i(1) by simp
    show "(g(nb \<mapsto> gc + 1)) start = Some 0"
      using nb_start i(2) by simp
    show "dom (came(nb \<mapsto> Some cur)) = dom (g(nb \<mapsto> gc + 1))"
      using i(3) by simp
    show "n = start" if "(came(nb \<mapsto> Some cur)) n = Some None" for n
      using that i(4)[of n] by (auto split: if_splits)
    show "corridor_edge p n \<and> passable goal blk n
          \<and> (\<exists>gp gn. (g(nb \<mapsto> gc + 1)) p = Some gp \<and> (g(nb \<mapsto> gc + 1)) n = Some gn \<and> gp < gn)"
      if c: "(came(nb \<mapsto> Some cur)) n = Some (Some p)" for n p
    proof (cases "n = nb")
      case True
      with c have "p = cur" by simp
      then show ?thesis using True edge pass gc nb_cur by simp
    next
      case False
      with c have old: "came n = Some (Some p)" by simp
      from i(5)[OF old] obtain gp gn where o: "corridor_edge p n" "passable goal blk n"
        "g p = Some gp" "g n = Some gn" "gp < gn"
        by blast
      show ?thesis
      proof (cases "p = nb")
        case True
        with o(3) better have "gc + 1 < gp" by auto
        then show ?thesis using o False True by simp
      next
        case pf: False
        then show ?thesis using o False by simp
      qed
    qed
    show "(g(nb \<mapsto> gc + 1)) (snd item) \<noteq> None \<and> valid_node (snd item)"
      if "item \<in> set (insort (f, nb) h)" for item
      using that i(6)[of item] corridor_edge_valid[OF edge] by (auto simp: set_insort_key)
  qed
qed

lemma relax_alt:
  "relax goal blk cur nb (h, came, g) =
     (if \<not> passable goal blk nb then Inr (h, came, g)
      else case g cur of
             None \<Rightarrow> Inl KeyError
           | Some gc \<Rightarrow>
               if real (gc + 1) < (case g nb of None \<Rightarrow> 10 ^ 18 | Some v \<Rightarrow> real v)
               then Inr (heappush h (real (gc + 1) + heuristic nb goal, nb),
                         came(nb \<mapsto> Some cur), g(nb \<mapsto> gc + 1))
               else Inr (h, came, g))"
  by (simp add: relax_def passable_def Let_def split: option.splits)

lemma relax_inv:
  assumes inv: "search_inv start goal blk (h, came, g)"
    and edge: "corridor_edge cur nb" and gc: "g cur = Some gc"
  shows "\<exists>h' came' g'. relax goal blk cur nb (h, came, g) = Inr (h', came', g')
           \<and> search_inv start goal blk (h', came', g') \<and> g' cur \<noteq> None"
proof (cases "passable goal blk nb")
  case False
  then show ?thesis
    using inv gc by (simp only: relax_alt) simp
next
  case True
  show ?thesis
  proof (cases "real (gc + 1) < (case g nb of None \<Rightarrow> 10 ^ 18 | Some v \<Rightarrow> real v)")
    case False
    then show ?thesis
      using True inv gc by (simp only: relax_alt) simp
  next
    case better: True
    then have "g nb = None \<or> (\<exists>v. g nb = Some v \<and> gc + 1 < v)"
      by (cases "g nb") auto
    from relax_update_inv[OF inv edge True gc this]
    have "search_inv start goal blk (heappush h (real (gc + 1) + heuristic nb goal, nb),
        came(nb \<mapsto> Some cur), g(nb \<mapsto> gc + 1))" .
    moreover have "relax goal blk cur nb (h, came, g) =
        Inr (heappush h (real (gc + 1) + heuristic nb goal, nb),
             came(nb \<mapsto> Some cur), g(nb \<mapsto> gc + 1))"
      using True better gc by (simp only: relax_alt) simp
    ultimately show ?thesis
      using gc by auto
  qed
qed

lemma for_neighbours_inv:
  assumes "search_inv start goal blk st" and "\<forall>nb \<in> set nbs. corridor_edge cur nb"
    and "snd (snd st) cur \<noteq> None"
  shows "\<exists>st'. for_neighbours goal blk cur nbs st = Inr st' \<and> search_inv start goal blk st'"
  using assms
proof (induction nbs arbitrary: st)
  case Nil
  then show ?case by simp
next
  case (Cons nb nbs)
  obtain h came g where st: "st = (h, came, g)" by (cases st)
  from Cons.prems(3) st obtain gc where gc: "g cur = Some gc" by auto
  from Cons.prems(2) have edge: "corridor_edge cur nb" by simp
  from relax_inv[OF Cons.prems(1)[unfolded st] edge gc]
  obtain h' came' g' where r: "relax goal blk cur nb (h, came, g) = Inr (h', came', g')"
    "search_inv start goal blk (h', came', g')" "g' cur \<noteq> None"
    by blast
  from Cons.IH[OF r(2)] Cons.prems(2) r(3)
  obtain st' where "for_neighbours goal blk cur nbs (h', came', g') = Inr st'"
    "search_inv start goal blk st'"
    by auto
  then show ?case using r(1) st by simp
qed

lemma a_star_loop_sound:
  assumes "search_inv start goal blk st"
  shows "\<exists>res. a_star_loop goal blk st = Some (Inr res)
           \<and> (\<forall>path. res = Some path \<longrightarrow> is_route blk start goal path)"
  using assms
proof (induction goal blk st rule: a_star_loop.induct)
  case (1 goal blk openh came g)
  note inv = search_invD[OF "1.prems"]
  show ?case
  proof (cases openh)
    case Nil
    then show ?thesis by (simp add: a_star_loop.simps)
  next
    case (Cons item rest)
    define cur where "cur = snd item"
    from inv(6)[of item] Cons have cur: "g cur \<noteq> None" "valid_node cur"
      by (simp_all add: cur_def)
    show ?thesis
    proof (cases "cur = goal")
      case True
      from cur(1) obtain k where "g goal = Some k" using True by auto
      from walk_back_chain[OF "1.prems" this, of "[]"] obtain ch where
        "walk_back came (Some goal) [] = Some (Inr ch)" "back_chain start goal blk goal ch"
        by auto
      then show ?thesis
        using Cons True back_chain_route
        by (simp add: a_star_loop.simps cur_def [symmetric] reconstruct_def)
    next
      case False
      have e: "EDGES cur = Some (set (neighbours cur))"
        using cur(2) by (simp add: EDGES_lookup)
      have inv_rest: "search_inv start goal blk (rest, came, g)"
        using "1.prems" unfolding Cons search_inv_def by simp
      have edges: "\<forall>nb \<in> set (sorted_list_of_set (set (neighbours cur))). corridor_edge cur nb"
        by (simp add: corridor_edge_def e)
      from for_neighbours_inv[OF inv_rest edges] cur(1)
      obtain st' where f: "for_neighbours goal blk cur (sorted_list_of_set (set (neighbours cur)))
          (rest, came, g) = Inr st'" "search_inv start goal blk st'"
        by auto
      from "1.IH"[OF Cons cur_def False e f(1) f(2)]
      show ?thesis
        using Cons False e f(1) by (simp add: a_star_loop.simps cur_def [symmetric])
    qed
  qed
qed

lemma a_star_sound:
  assumes "valid_node start"
  shows "\<exists>res. a_star start goal blk = Some (Inr res)
           \<and> (\<forall>path. res = Some path \<longrightarrow> is_route blk start goal path)"
  unfolding a_star_def heappush_def
  by (rule a_star_loop_sound, rule search_invI) (use assms in \<open>auto split: if_splits\<close>)

definition corridor_route :: "board \<Rightarrow> int \<Rightarrow> int \<Rightarrow> node list \<Rightarrow> bool" where
  "corridor_route b src dst path =
     (path \<noteq> [] \<and> hd path = (C, sq_to_rc src) \<and> last path = (C, sq_to_rc dst)
      \<and> successively corridor_edge path
      \<and> list_all (\<lambda>n. fst n = C \<and> snd n \<in> board_occupied_rc b \<longrightarrow>
                       n = (C, sq_to_rc src) \<or> n = (C, sq_to_rc dst)) path)"

definition occupied :: "board \<Rightarrow> int \<Rightarrow> bool" where
  "occupied b sq = (0 \<le> sq \<and> sq < 64 \<and> piece_at b sq \<noteq> None)"

lemma node_xy_centre:
  assumes "node_xy n = rc_to_center_xy r c"
  shows "n = (C, r, c)"
proof (cases n)
  case (fields t r' c')
  show ?thesis
  proof (cases t)
    case C
    with assms fields show ?thesis
      by (simp add: node_xy_def geometry)
  next
    case H
    with assms fields have "real_of_int (2 * c' + 1) = real_of_int (2 * c)"
      by (simp add: node_xy_def geometry)
    then have "2 * c' + 1 = 2 * c"
      by (simp only: of_int_eq_iff)
    then have False by presburger
    then show ?thesis ..
  next
    case V
    with assms fields have "real_of_int (2 * r) = real_of_int (2 * r' + 1)"
      by (simp add: node_xy_def geometry)
    then have "2 * r = 2 * r' + 1"
      by (simp only: of_int_eq_iff)
    then have False by presburger
    then show ?thesis ..
  qed
qed

lemma sq_to_rc_inj: "sq_to_rc a = sq_to_rc b \<Longrightarrow> a = b"
  unfolding sq_to_rc_def square_rank_def square_file_def
  by (metis prod.inject mult_div_mod_eq)

lemma occupied_rc: "occupied b sq \<Longrightarrow> sq_to_rc sq \<in> board_occupied_rc b"
  by (simp add: occupied_def board_occupied_rc_def SQUARES_def)

lemma square_valid: "0 \<le> sq \<Longrightarrow> sq < 64 \<Longrightarrow> valid_node (C, sq_to_rc sq)"
  unfolding valid_node_def sq_to_rc_def square_rank_def square_file_def
  by simp presburger

lemma planner_route:
  assumes "is_route (\<lambda>r c. (r, c) \<in> board_occupied_rc b
             \<and> \<not> (r = fst (sq_to_rc src) \<and> c = snd (sq_to_rc src)))
           (C, sq_to_rc src) (C, sq_to_rc dst) path"
  shows "corridor_route b src dst path"
proof -
  from assms obtain x xs where path: "path = x # xs"
    by (cases path) (auto simp: is_route_def)
  show ?thesis
    using assms unfolding path is_route_def corridor_route_def passable_def list_all_iff
    by (cases "sq_to_rc src") auto
qed

lemma node_xy_C: "node_xy (C, r, c) = rc_to_center_xy r c"
  by (simp add: node_xy_def)

lemma plan_corridor_path_cases:
  assumes "0 \<le> src" "src < 64"
  shows "plan_corridor_path b src dst = raises (RuntimeError ''No corridor path found.'')
       \<or> (\<exists>path. plan_corridor_path b src dst = returns (map node_xy path)
                 \<and> corridor_route b src dst path)"
proof -
  let ?blk = "\<lambda>r c. (r, c) \<in> board_occupied_rc b
             \<and> \<not> (r = fst (sq_to_rc src) \<and> c = snd (sq_to_rc src))"
  have "valid_node (C, sq_to_rc src)"
    using assms by (rule square_valid)
  from a_star_sound[OF this, of "(C, sq_to_rc dst)" ?blk]
  obtain res where res: "a_star (C, sq_to_rc src) (C, sq_to_rc dst) ?blk = Some (Inr res)"
    "\<forall>path. res = Some path \<longrightarrow> is_route ?blk (C, sq_to_rc src) (C, sq_to_rc dst) path"
    by blast
  have plan: "plan_corridor_path b src dst = points_or_raise ''No corridor path found.'' res"
    using res(1) by (simp add: plan_corridor_path_def Let_def and_then_def)
  show ?thesis
  proof (cases res)
    case None
    then show ?thesis by (simp add: plan points_or_raise_def)
  next
    case (Some path)
    with res(2) have "corridor_route b src dst path"
      by (simp add: planner_route)
    moreover from this have "path \<noteq> []"
      by (simp add: corridor_route_def)
    ultimately show ?thesis
      using Some by (auto simp: plan points_or_raise_def)
  qed
qed

lemma route_avoids_pieces:
  assumes "corridor_route b src dst path" "occupied b sq" "sq \<noteq> src" "sq \<noteq> dst"
  shows "square_center sq \<notin> set (map node_xy path)"
proof
  assume "square_center sq \<in> set (map node_xy path)"
  then obtain n where n: "n \<in> set path" "node_xy n = square_center sq"
    by auto
  from n(2) have "n = (C, sq_to_rc sq)"
    using node_xy_centre[of n "fst (sq_to_rc sq)" "snd (sq_to_rc sq)"]
    by (simp add: square_center_def)
  moreover from assms(1) n(1) have "fst n = C \<and> snd n \<in> board_occupied_rc b \<longrightarrow>
      n = (C, sq_to_rc src) \<or> n = (C, sq_to_rc dst)"
    by (simp add: corridor_route_def list_all_iff)
  ultimately have "sq_to_rc sq = sq_to_rc src \<or> sq_to_rc sq = sq_to_rc dst"
    using occupied_rc[OF assms(2)] by simp
  then show False
    using assms(3,4) sq_to_rc_inj by blast
qed

text \<open>
  C2.  For a source square of the board: when no corridor route leads from the source
  centre to the destination centre past the occupied squares, \<open>plan_corridor_path\<close>
  raises its \<open>RuntimeError\<close> (the spec's \<open>PathNotFound\<close>); and a path it returns holds
  the centre of no occupied square but the source's and the destination's.
\<close>

theorem planner_never_crosses_pieces:
  assumes "0 \<le> src" "src < 64"
  shows "(\<not> (\<exists>path. corridor_route b src dst path) \<longrightarrow>
            plan_corridor_path b src dst = raises (RuntimeError ''No corridor path found.''))
       \<and> (\<forall>pts sq. plan_corridor_path b src dst = returns pts \<and> occupied b sq
              \<and> sq \<noteq> src \<and> sq \<noteq> dst \<longrightarrow> square_center sq \<notin> set pts)"
proof (intro conjI impI allI)
  assume "\<not> (\<exists>path. corridor_route b src dst path)"
  then show "plan_corridor_path b src dst = raises (RuntimeError ''No corridor path found.'')"
    using plan_corridor_path_cases[OF assms, of b dst] by blast
next
  fix pts sq
  assume a: "plan_corridor_path b src dst = returns pts \<and> occupied b sq \<and> sq \<noteq> src \<and> sq \<noteq> dst"
  from plan_corridor_path_cases[OF assms, of b dst] a
  obtain path where "pts = map node_xy path" "corridor_route b src dst path"
    by (auto simp: returns_def raises_def)
  then show "square_center sq \<notin> set pts"
    using a route_avoids_pieces by blast
qed

section \<open>Plans of the sequencers\<close>

definition board_of :: "(int \<times> piece) list \<Rightarrow> int option \<Rightarrow> board" where
  "board_of ps ep = \<lparr>piece_at = map_of ps, ep_square = ep\<rparr>"

definition pc :: "piece_type \<Rightarrow> bool \<Rightarrow> piece" where
  "pc t col = \<lparr>ptype = t, color = col\<rparr>"

definition sorted_nodes :: "node list" where
  "sorted_nodes = filter valid_node
     (concat (map (\<lambda>t. concat (map (\<lambda>r. map (\<lambda>c. (t, r, c)) [0..7]) [0..7])) [C, H, V]))"

definition game_start :: globals where
  "game_start = init_grave_positions globals_initial"

definition e4xd5_board :: board where
  "e4xd5_board = board_of [(28, pc PAWN WHITE), (35, pc PAWN BLACK)] None"

lemma squares_listed:
  "SQUARES = [0, 1, 2, 3, 4, 5, 6, 7, 8, 9, 10, 11, 12, 13, 14, 15]
     @ [16, 17, 18, 19, 20, 21, 22, 23, 24, 25, 26, 27, 28, 29, 30, 31]
     @ [32, 33, 34, 35, 36, 37, 38, 39, 40, 41, 42, 43, 44, 45, 46, 47]
     @ [48, 49, 50, 51, 52, 53, 54, 55, 56, 57, 58, 59, 60, 61, 62, 63]"
  by (simp add: SQUARES_def upto_rec1)

lemmas planner_eval = plan_corridor_path_def board_occupied_rc_def squares_listed board_of_def
  sq_to_rc_def square_file_def square_rank_def and_then_def points_or_raise_def returns_def
  raises_def a_star_eval

lemma and_then_returns:
  "and_then m f = returns y \<longleftrightarrow> (\<exists>x. m = returns x \<and> f x = returns y)"
  by (auto simp: and_then_def returns_def split: option.splits sum.splits)

lemma raises_not_returns [simp]: "raises e \<noteq> returns x" "returns x \<noteq> raises e"
  by (simp_all add: raises_def returns_def)

lemma returns_inject [simp]: "returns x = returns y \<longleftrightarrow> x = y"
  by (simp add: returns_def)

lemma plan_corridor_path_ends:
  assumes "0 \<le> src" "src < 64" "plan_corridor_path b src dst = returns pts"
  shows "pts \<noteq> [] \<and> hd pts = square_center src \<and> last pts = square_center dst"
proof -
  from plan_corridor_path_cases[OF assms(1,2), of b dst] assms(3)
  obtain path where p: "pts = map node_xy path" "corridor_route b src dst path"
    by auto
  from p(2) have "path \<noteq> []" "hd path = (C, sq_to_rc src)" "last path = (C, sq_to_rc dst)"
    by (simp_all add: corridor_route_def)
  then show ?thesis
    by (simp add: p(1) hd_map last_map node_xy_def square_center_def case_prod_beta)
qed

lemma knight_route_ends:
  assumes "0 \<le> from_square m" "from_square m < 64" "plan_knight_route_on_lines b m = returns pts"
  shows "pts \<noteq> [] \<and> last pts = square_center (to_square m)"
proof -
  have "plan_knight_route_on_lines b m = plan_corridor_path b (from_square m) (to_square m)
      \<or> (\<exists>p0 p1 p2. plan_knight_route_on_lines b m = returns [p0, p1, p2, square_center (to_square m)])"
    by (simp add: plan_knight_route_on_lines_def Let_def square_center_def)
  then show ?thesis
  proof
    assume "plan_knight_route_on_lines b m = plan_corridor_path b (from_square m) (to_square m)"
    with assms(3) have "plan_corridor_path b (from_square m) (to_square m) = returns pts"
      by simp
    from plan_corridor_path_ends[OF assms(1,2) this] show ?thesis
      by simp
  next
    assume "\<exists>p0 p1 p2. plan_knight_route_on_lines b m =
        returns [p0, p1, p2, square_center (to_square m)]"
    with assms(3) show ?thesis
      by auto
  qed
qed

lemma own_piece_path_ends:
  assumes "0 \<le> from_square m" "from_square m < 64" "own_piece_path b b' m = returns pts"
  shows "pts \<noteq> [] \<and> last pts = square_center (to_square m)"
proof -
  from assms(3) have "plan_knight_route_on_lines b' m = returns pts
      \<or> plan_corridor_path b' (from_square m) (to_square m) = returns pts"
    by (auto simp: own_piece_path_def split: option.splits if_splits)
  then show ?thesis
    using knight_route_ends[OF assms(1,2)] plan_corridor_path_ends[OF assms(1,2)] by blast
qed

lemma margin_path_starts:
  "plan_margin_escape_path cap_xy grave_xy \<noteq> []
   \<and> hd (plan_margin_escape_path cap_xy grave_xy) = cap_xy"
  by (simp add: plan_margin_escape_path_def Let_def)

definition captured_square :: "board \<Rightarrow> move \<Rightarrow> int" where
  "captured_square b m =
     (if is_en_passant b m
      then chess_square (square_file (to_square m)) (square_rank (from_square m))
      else to_square m)"

lemma plan_capture_sequence_unfold:
  "plan_capture_sequence order gs b m =
     (let cap = captured_square b m;
          col = (case piece_at b cap of None \<Rightarrow> WHITE | Some p \<Rightarrow> color p);
          grave = next_grave_xy gs col;
          margin_path = plan_margin_escape_path (square_center cap) grave
      in and_then (plan_corridor_path b (from_square m) cap) (\<lambda>to_target.
           if to_target = [] then raises (RuntimeError ''No path to captured piece.'')
           else and_then (corridor_between_points order (remove_piece_at b cap) grave
                            (square_center (from_square m))) (\<lambda>way_back.
                  and_then (own_piece_path b (remove_piece_at b cap) m) (\<lambda>own.
                    if own = [] then raises IndexError
                    else returns
                      ([seg to_target False, seg [last to_target] True, seg margin_path True,
                        seg [last margin_path] False, seg way_back False, seg own True,
                        seg [last own] False],
                       col, grave)))))"
  unfolding plan_capture_sequence_def Let_def captured_square_def
  using margin_path_starts by simp

lemma capture_sequence_shape:
  assumes "0 \<le> from_square m" "from_square m < 64"
    and "plan_capture_sequence order gs b m = returns (segs, col, gxy)"
  shows "\<exists>to_target margin_path way_back own.
      segs = [seg to_target False, seg [last to_target] True, seg margin_path True,
              seg [last margin_path] False, seg way_back False, seg own True,
              seg [last own] False]
      \<and> last to_target = square_center (captured_square b m)
      \<and> hd margin_path = square_center (captured_square b m)
      \<and> last own = square_center (to_square m)
      \<and> col = (case piece_at b (captured_square b m) of None \<Rightarrow> WHITE | Some p \<Rightarrow> color p)
      \<and> gxy = next_grave_xy gs col"
proof -
  define cap where "cap = captured_square b m"
  define grave where
    "grave = next_grave_xy gs (case piece_at b cap of None \<Rightarrow> WHITE | Some p \<Rightarrow> color p)"
  define margin_path where "margin_path = plan_margin_escape_path (square_center cap) grave"
  from assms(3) obtain to_target where
    t: "plan_corridor_path b (from_square m) cap = returns to_target"
    and r1: "(if to_target = [] then raises (RuntimeError ''No path to captured piece.'')
        else and_then (corridor_between_points order (remove_piece_at b cap) grave
                         (square_center (from_square m))) (\<lambda>way_back.
               and_then (own_piece_path b (remove_piece_at b cap) m) (\<lambda>own.
                 if own = [] then raises IndexError
                 else returns
                   ([seg to_target False, seg [last to_target] True, seg margin_path True,
                     seg [last margin_path] False, seg way_back False, seg own True,
                     seg [last own] False],
                    case piece_at b cap of None \<Rightarrow> WHITE | Some p \<Rightarrow> color p, grave))))
         = returns (segs, col, gxy)"
    unfolding plan_capture_sequence_unfold Let_def and_then_returns cap_def grave_def margin_path_def
    by blast
  from r1 obtain way_back own where
    o: "own_piece_path b (remove_piece_at b cap) m = returns own"
    and segs: "segs = [seg to_target False, seg [last to_target] True, seg margin_path True,
                     seg [last margin_path] False, seg way_back False, seg own True,
                     seg [last own] False]"
    and col: "col = (case piece_at b cap of None \<Rightarrow> WHITE | Some p \<Rightarrow> color p)" "gxy = grave"
    by (auto simp: and_then_returns split: if_splits)
  have "last to_target = square_center cap"
    using plan_corridor_path_ends[OF assms(1,2) t] by simp
  moreover have "hd margin_path = square_center cap"
    by (simp add: margin_path_def margin_path_starts)
  moreover have "last own = square_center (to_square m)"
    using own_piece_path_ends[OF assms(1,2) o] by simp
  ultimately show ?thesis
    using segs col unfolding cap_def grave_def by blast
qed

lemma normal_move_shape:
  assumes "plan_normal_move b m = returns segs"
  shows "\<exists>path. segs = [seg path True, seg [last path] False]"
  using assms by (auto simp: plan_normal_move_def and_then_returns split: if_splits)

lemma castling_shape:
  assumes "plan_castling push b m = returns segs"
  shows "\<exists>rook_path king_path. segs = [seg rook_path True, seg [last rook_path] False,
           seg king_path True, seg [last king_path] False]"
  using assms
  by (auto simp: plan_castling_def Let_def and_then_returns split: if_splits)

lemma nearest_to_first_slot: "nearest_node_to_xy sorted_nodes (664, 322 / 5) = Some (C, 7, 7)"
  by (simp add: nearest_node_to_xy_def sorted_nodes_def valid_node_def upto_rec1 node_xy_def geometry Let_def)

lemma nearest_to_e4: "nearest_node_to_xy sorted_nodes (356, 356) = Some (C, 3, 4)"
  by (simp add: nearest_node_to_xy_def sorted_nodes_def valid_node_def upto_rec1 node_xy_def geometry Let_def)

lemmas square_eval = square_center_def sq_to_rc_def square_file_def square_rank_def
  chess_square_def geometry

lemmas board_eval = board_of_def pc_def remove_piece_at_def is_en_passant_def captured_square_def
  WHITE_def BLACK_def

lemma first_slot: "next_grave_xy game_start col = (664, 322 / 5)"
  by (simp add: next_grave_xy_def game_start_def grave_positions_initial
      init_grave_positions_keeps_lists globals_initial_def)

lemma way_back_to_e4:
  "corridor_between_points sorted_nodes (remove_piece_at e4xd5_board 35) (664, 322 / 5) (356, 356)
  = returns [(572, 68), (536, 68), (500, 68), (464, 68), (428, 68), (392, 68), (356, 68),
            (356, 104), (356, 140), (356, 176), (356, 212), (356, 248), (356, 284),
            (356, 320), (356, 356)]"
  by (simp add: corridor_between_points_def nearest_to_first_slot nearest_to_e4
      e4xd5_board_def board_eval planner_eval)

lemma e4_to_d5:
  "plan_corridor_path e4xd5_board 28 35
     = returns [(356, 356), (320, 356), (284, 356), (284, 320), (284, 284)]"
  "plan_corridor_path (remove_piece_at e4xd5_board 35) 28 35
     = returns [(356, 356), (320, 356), (284, 356), (284, 320), (284, 284)]"
  by (simp_all add: e4xd5_board_def board_eval planner_eval)

lemma margin_from_d5:
  "plan_margin_escape_path (284, 284) (664, 322 / 5) =
     [(284, 284), (248, 284), (- (56 / 5), 284), (664, 284), (664, 322 / 5)]"
  by (simp add: plan_margin_escape_path_def geometry Let_def)

lemma e4xd5_plan:
  "plan_capture_sequence sorted_nodes game_start e4xd5_board \<lparr>from_square = 28, to_square = 35\<rparr> =
   returns
     ([seg [(356, 356), (320, 356), (284, 356), (284, 320), (284, 284)] False,
       seg [(284, 284)] True,
       seg [(284, 284), (248, 284), (- (56 / 5), 284), (664, 284), (664, 322 / 5)] True,
       seg [(664, 322 / 5)] False,
       seg [(572, 68), (536, 68), (500, 68), (464, 68), (428, 68), (392, 68), (356, 68),
            (356, 104), (356, 140), (356, 176), (356, 212), (356, 248), (356, 284),
            (356, 320), (356, 356)] False,
       seg [(356, 356), (320, 356), (284, 356), (284, 320), (284, 284)] True,
       seg [(284, 284)] False],
      BLACK, (664, 322 / 5))"
proof -
  have cap: "captured_square e4xd5_board \<lparr>from_square = 28, to_square = 35\<rparr> = 35"
    by (simp add: e4xd5_board_def board_eval square_eval)
  have col: "piece_at e4xd5_board 35 = Some (pc PAWN BLACK)" "piece_at e4xd5_board 28 = Some (pc PAWN WHITE)"
    by (simp_all add: e4xd5_board_def board_of_def)
  have centres: "square_center 35 = (284, 284)" "square_center 28 = (356, 356)"
    by (simp_all add: square_eval)
  show ?thesis
    by (simp add: plan_capture_sequence_unfold cap col centres first_slot margin_from_d5
        way_back_to_e4 e4_to_d5 own_piece_path_def and_then_def returns_def pc_def BLACK_def Let_def)
qed

definition ep_board :: board where
  "ep_board = board_of [(28, pc PAWN BLACK), (27, pc PAWN WHITE)] (Some 19)"

lemma way_back_to_e4_ep:
  "corridor_between_points sorted_nodes (remove_piece_at ep_board 27) (664, 322 / 5) (356, 356)
  = returns [(572, 68), (536, 68), (500, 68), (464, 68), (428, 68), (392, 68), (356, 68),
            (356, 104), (356, 140), (356, 176), (356, 212), (356, 248), (356, 284),
            (356, 320), (356, 356)]"
  by (simp add: corridor_between_points_def nearest_to_first_slot nearest_to_e4
      ep_board_def board_eval planner_eval)

lemma e4_to_d4_d3:
  "plan_corridor_path ep_board 28 27 = returns [(356, 356), (320, 356), (284, 356)]"
  "plan_corridor_path (remove_piece_at ep_board 27) 28 19
     = returns [(356, 356), (320, 356), (284, 356), (284, 392), (284, 428)]"
  by (simp_all add: ep_board_def board_eval planner_eval)

lemma margin_from_d4:
  "plan_margin_escape_path (284, 356) (664, 322 / 5) =
     [(284, 356), (248, 356), (- (56 / 5), 356), (664, 356), (664, 322 / 5)]"
  by (simp add: plan_margin_escape_path_def geometry Let_def)

lemma en_passant_plan:
  "is_en_passant ep_board \<lparr>from_square = 28, to_square = 19\<rparr>
   \<and> plan_capture_sequence sorted_nodes game_start ep_board \<lparr>from_square = 28, to_square = 19\<rparr> =
   returns
     ([seg [(356, 356), (320, 356), (284, 356)] False,
       seg [(284, 356)] True,
       seg [(284, 356), (248, 356), (- (56 / 5), 356), (664, 356), (664, 322 / 5)] True,
       seg [(664, 322 / 5)] False,
       seg [(572, 68), (536, 68), (500, 68), (464, 68), (428, 68), (392, 68), (356, 68),
            (356, 104), (356, 140), (356, 176), (356, 212), (356, 248), (356, 284),
            (356, 320), (356, 356)] False,
       seg [(356, 356), (320, 356), (284, 356), (284, 392), (284, 428)] True,
       seg [(284, 428)] False],
      WHITE, (664, 322 / 5))"
proof -
  have ep: "is_en_passant ep_board \<lparr>from_square = 28, to_square = 19\<rparr>"
    by (simp add: ep_board_def board_eval square_eval)
  have cap: "captured_square ep_board \<lparr>from_square = 28, to_square = 19\<rparr> = 27"
    by (simp add: captured_square_def ep square_eval)
  have col: "piece_at ep_board 27 = Some (pc PAWN WHITE)" "piece_at ep_board 28 = Some (pc PAWN BLACK)"
    by (simp_all add: ep_board_def board_of_def)
  have centres: "square_center 27 = (284, 356)" "square_center 28 = (356, 356)"
    by (simp_all add: square_eval)
  show ?thesis
    by (simp add: ep plan_capture_sequence_unfold cap col centres first_slot margin_from_d4
        way_back_to_e4_ep e4_to_d4_d3 own_piece_path_def and_then_def returns_def pc_def WHITE_def
        Let_def)
qed

definition captured_piece_color :: "board \<Rightarrow> move \<Rightarrow> bool" where
  "captured_piece_color b m =
     (case piece_at b (captured_square b m) of Some p \<Rightarrow> color p | None \<Rightarrow> WHITE)"

definition castling_rook_from :: "move \<Rightarrow> int" where
  "castling_rook_from m =
     (if square_file (to_square m) > square_file (from_square m)
      then chess_square (file_index CHR ''h'') (square_rank (from_square m))
      else chess_square (file_index CHR ''a'') (square_rank (from_square m)))"

definition castling_rook_to :: "move \<Rightarrow> int" where
  "castling_rook_to m =
     (if square_file (to_square m) > square_file (from_square m)
      then chess_square (file_index CHR ''f'') (square_rank (from_square m))
      else chess_square (file_index CHR ''d'') (square_rank (from_square m)))"

lemma capture_sequence_routes:
  assumes "0 \<le> from_square m" "from_square m < 64"
    and "plan_capture_sequence order gs b m = returns (segs, col, gxy)"
  shows "\<exists>to_target way_back own.
      plan_corridor_path b (from_square m) (captured_square b m) = returns to_target
      \<and> corridor_between_points order (remove_piece_at b (captured_square b m)) gxy
            (square_center (from_square m)) = returns way_back
      \<and> own_piece_path b (remove_piece_at b (captured_square b m)) m = returns own
      \<and> segs = [seg to_target False, seg [square_center (captured_square b m)] True,
              seg (plan_margin_escape_path (square_center (captured_square b m)) gxy) True,
              seg [last (plan_margin_escape_path (square_center (captured_square b m)) gxy)] False,
              seg way_back False, seg own True, seg [square_center (to_square m)] False]
      \<and> last to_target = square_center (captured_square b m)
      \<and> last own = square_center (to_square m)
      \<and> col = captured_piece_color b m
      \<and> gxy = next_grave_xy gs col"
proof -
  define cap where "cap = captured_square b m"
  define grave where "grave = next_grave_xy gs (captured_piece_color b m)"
  define margin_path where "margin_path = plan_margin_escape_path (square_center cap) grave"
  have colour: "(case piece_at b cap of None \<Rightarrow> WHITE | Some p \<Rightarrow> color p) = captured_piece_color b m"
    by (simp add: captured_piece_color_def cap_def split: option.splits)
  from assms(3) obtain to_target where
    t: "plan_corridor_path b (from_square m) cap = returns to_target"
    and r1: "(if to_target = [] then raises (RuntimeError ''No path to captured piece.'')
        else and_then (corridor_between_points order (remove_piece_at b cap) grave
                         (square_center (from_square m))) (\<lambda>way_back.
               and_then (own_piece_path b (remove_piece_at b cap) m) (\<lambda>own.
                 if own = [] then raises IndexError
                 else returns
                   ([seg to_target False, seg [last to_target] True, seg margin_path True,
                     seg [last margin_path] False, seg way_back False, seg own True,
                     seg [last own] False],
                    captured_piece_color b m, grave))))
         = returns (segs, col, gxy)"
    unfolding plan_capture_sequence_unfold Let_def and_then_returns cap_def[symmetric] colour
      grave_def[symmetric] margin_path_def[symmetric]
    by blast
  from r1 obtain way_back own where
    w: "corridor_between_points order (remove_piece_at b cap) grave
          (square_center (from_square m)) = returns way_back"
    and o: "own_piece_path b (remove_piece_at b cap) m = returns own"
    and segs: "segs = [seg to_target False, seg [last to_target] True, seg margin_path True,
                     seg [last margin_path] False, seg way_back False, seg own True,
                     seg [last own] False]"
    and col: "col = captured_piece_color b m" "gxy = grave"
    by (auto simp: and_then_returns split: if_splits)
  have "last to_target = square_center cap"
    using plan_corridor_path_ends[OF assms(1,2) t] by simp
  moreover have "last own = square_center (to_square m)"
    using own_piece_path_ends[OF assms(1,2) o] by simp
  ultimately show ?thesis
    using t w o segs col unfolding cap_def grave_def margin_path_def by simp
qed

lemma capture_sequence_produced:
  assumes "0 \<le> from_square m" "from_square m < 64"
    and "plan_corridor_path b (from_square m) (captured_square b m) = returns to_target"
    and "corridor_between_points order (remove_piece_at b (captured_square b m))
            (next_grave_xy gs (captured_piece_color b m))
            (square_center (from_square m)) = returns way_back"
    and "own_piece_path b (remove_piece_at b (captured_square b m)) m = returns own"
  shows "\<exists>segs. plan_capture_sequence order gs b m =
           returns (segs, captured_piece_color b m, next_grave_xy gs (captured_piece_color b m))"
proof -
  have colour: "(case piece_at b (captured_square b m) of None \<Rightarrow> WHITE | Some p \<Rightarrow> color p)
       = captured_piece_color b m"
    by (simp add: captured_piece_color_def split: option.splits)
  have "to_target \<noteq> []"
    using plan_corridor_path_ends[OF assms(1,2,3)] by simp
  moreover have "own \<noteq> []"
    using own_piece_path_ends[OF assms(1,2,5)] by simp
  ultimately show ?thesis
    unfolding plan_capture_sequence_unfold Let_def colour assms(3,4,5)
    by (simp add: and_then_def returns_def)
qed

lemma normal_move_routes:
  assumes "0 \<le> from_square m" "from_square m < 64" "plan_normal_move b m = returns segs"
  shows "\<exists>path. own_piece_path b b m = returns path
         \<and> segs = [seg path True, seg [square_center (to_square m)] False]
         \<and> last path = square_center (to_square m)"
proof -
  from assms(3) obtain path where p: "own_piece_path b b m = returns path"
    "segs = [seg path True, seg [last path] False]"
    by (auto simp: plan_normal_move_def and_then_returns split: if_splits)
  from own_piece_path_ends[OF assms(1,2) p(1)] p show ?thesis
    by simp
qed

lemma normal_move_produced:
  assumes "0 \<le> from_square m" "from_square m < 64" "own_piece_path b b m = returns path"
  shows "\<exists>segs. plan_normal_move b m = returns segs"
  using own_piece_path_ends[OF assms]
  by (simp add: plan_normal_move_def assms(3) and_then_def returns_def)

lemma rook_from_range:
  assumes "0 \<le> from_square m" "from_square m < 64"
  shows "0 \<le> castling_rook_from m \<and> castling_rook_from m < 64"
proof -
  have "file_index CHR ''h'' = 7" "file_index CHR ''a'' = 0"
    by (simp_all add: file_index_def FILE_NAMES_def)
  then show ?thesis
    using rank_range[OF assms]
    by (auto simp: castling_rook_from_def chess_square_def)
qed

lemma plan_castling_unfold:
  "plan_castling push b m =
     and_then (plan_corridor_path b (castling_rook_from m) (castling_rook_to m)) (\<lambda>rook_path.
       and_then (push b \<lparr>from_square = castling_rook_from m, to_square = castling_rook_to m\<rparr>) (\<lambda>tmp.
         and_then (plan_corridor_path tmp (from_square m) (to_square m)) (\<lambda>king_path.
           if rook_path = [] \<or> king_path = [] then raises IndexError
           else returns
             [seg rook_path True, seg [last rook_path] False,
              seg king_path True, seg [last king_path] False])))"
  unfolding plan_castling_def Let_def castling_rook_from_def castling_rook_to_def
  by simp

lemma castling_routes:
  assumes "0 \<le> from_square m" "from_square m < 64" "plan_castling push b m = returns segs"
  shows "\<exists>rook_path tmp king_path.
           plan_corridor_path b (castling_rook_from m) (castling_rook_to m) = returns rook_path
         \<and> push b \<lparr>from_square = castling_rook_from m, to_square = castling_rook_to m\<rparr> = returns tmp
         \<and> plan_corridor_path tmp (from_square m) (to_square m) = returns king_path
         \<and> segs = [seg rook_path True, seg [square_center (castling_rook_to m)] False,
                   seg king_path True, seg [square_center (to_square m)] False]"
proof -
  from assms(3) obtain rook_path tmp king_path where
    r: "plan_corridor_path b (castling_rook_from m) (castling_rook_to m) = returns rook_path"
    and p: "push b \<lparr>from_square = castling_rook_from m, to_square = castling_rook_to m\<rparr> = returns tmp"
    and k: "plan_corridor_path tmp (from_square m) (to_square m) = returns king_path"
    and s: "segs = [seg rook_path True, seg [last rook_path] False,
              seg king_path True, seg [last king_path] False]"
    unfolding plan_castling_unfold and_then_returns
    by (auto split: if_splits)
  from rook_from_range[OF assms(1,2)]
  have "last rook_path = square_center (castling_rook_to m)"
    using plan_corridor_path_ends[OF _ _ r] by simp
  moreover have "last king_path = square_center (to_square m)"
    using plan_corridor_path_ends[OF assms(1,2) k] by simp
  ultimately show ?thesis
    using r p k s by simp
qed

lemma castling_produced:
  assumes "0 \<le> from_square m" "from_square m < 64"
    and "plan_corridor_path b (castling_rook_from m) (castling_rook_to m) = returns rook_path"
    and "push b \<lparr>from_square = castling_rook_from m, to_square = castling_rook_to m\<rparr> = returns tmp"
    and "plan_corridor_path tmp (from_square m) (to_square m) = returns king_path"
  shows "\<exists>segs. plan_castling push b m = returns segs"
proof -
  from rook_from_range[OF assms(1,2)]
  have "rook_path \<noteq> []"
    using plan_corridor_path_ends[OF _ _ assms(3)] by simp
  moreover have "king_path \<noteq> []"
    using plan_corridor_path_ends[OF assms(1,2,5)] by simp
  ultimately show ?thesis
    unfolding plan_castling_unfold
    by (simp add: and_then_def assms(3,4,5) [unfolded returns_def] returns_def)
qed

text \<open>
  C3.  The plans the three sequencers return, for a move from a square of the board.
  A simple move: two segments (on, off), the own piece's route and then the destination
  centre alone.  A capture: seven segments with the flags (off, on, on, off, off, on, off);
  the first ends on the captured square's centre, the second holds that centre alone, the
  seventh holds the destination centre alone; when the capture is not en passant the
  captured square is the destination.  Castling: four segments (on, off, on, off), the
  rook's route, the rook's destination centre alone, the king's route, the king's
  destination centre alone.  Each sequencer does return a plan whenever the routes it asks
  the planner for exist.
\<close>

theorem plan_segment_counts:
  assumes "0 \<le> from_square m" "from_square m < 64"
  shows "(\<forall>segs. plan_normal_move b m = returns segs \<longrightarrow>
            length segs = 2 \<and> map magnet_on segs = [True, False]
            \<and> own_piece_path b b m = returns (waypoints (segs ! 0))
            \<and> last (waypoints (segs ! 0)) = square_center (to_square m)
            \<and> waypoints (segs ! 1) = [square_center (to_square m)])
       \<and> (\<forall>path. own_piece_path b b m = returns path \<longrightarrow>
            (\<exists>segs. plan_normal_move b m = returns segs))
       \<and> (\<forall>segs col gxy. plan_capture_sequence order gs b m = returns (segs, col, gxy) \<longrightarrow>
            length segs = 7
            \<and> map magnet_on segs = [False, True, True, False, False, True, False]
            \<and> plan_corridor_path b (from_square m) (captured_square b m)
                 = returns (waypoints (segs ! 0))
            \<and> last (waypoints (segs ! 0)) = square_center (captured_square b m)
            \<and> waypoints (segs ! 1) = [square_center (captured_square b m)]
            \<and> (\<not> is_en_passant b m \<longrightarrow> captured_square b m = to_square m)
            \<and> own_piece_path b (remove_piece_at b (captured_square b m)) m
                 = returns (waypoints (segs ! 5))
            \<and> last (waypoints (segs ! 5)) = square_center (to_square m)
            \<and> waypoints (segs ! 6) = [square_center (to_square m)])
       \<and> (\<forall>to_target way_back own.
            plan_corridor_path b (from_square m) (captured_square b m) = returns to_target
            \<and> corridor_between_points order (remove_piece_at b (captured_square b m))
                 (next_grave_xy gs (captured_piece_color b m))
                 (square_center (from_square m)) = returns way_back
            \<and> own_piece_path b (remove_piece_at b (captured_square b m)) m = returns own \<longrightarrow>
            (\<exists>segs. plan_capture_sequence order gs b m =
               returns (segs, captured_piece_color b m,
                        next_grave_xy gs (captured_piece_color b m))))
       \<and> (\<forall>segs. plan_castling push b m = returns segs \<longrightarrow>
            length segs = 4 \<and> map magnet_on segs = [True, False, True, False]
            \<and> plan_corridor_path b (castling_rook_from m) (castling_rook_to m)
                 = returns (waypoints (segs ! 0))
            \<and> waypoints (segs ! 1) = [square_center (castling_rook_to m)]
            \<and> last (waypoints (segs ! 2)) = square_center (to_square m)
            \<and> waypoints (segs ! 3) = [square_center (to_square m)])
       \<and> (\<forall>rook_path tmp king_path.
            plan_corridor_path b (castling_rook_from m) (castling_rook_to m) = returns rook_path
            \<and> push b \<lparr>from_square = castling_rook_from m, to_square = castling_rook_to m\<rparr>
                 = returns tmp
            \<and> plan_corridor_path tmp (from_square m) (to_square m) = returns king_path \<longrightarrow>
            (\<exists>segs. plan_castling push b m = returns segs))"
proof (intro conjI allI impI)
  fix segs
  assume "plan_normal_move b m = returns segs"
  from normal_move_routes[OF assms this]
  show "length segs = 2" "map magnet_on segs = [True, False]"
    "own_piece_path b b m = returns (waypoints (segs ! 0))"
    "last (waypoints (segs ! 0)) = square_center (to_square m)"
    "waypoints (segs ! 1) = [square_center (to_square m)]"
    by (auto simp: seg_def)
next
  fix path
  assume "own_piece_path b b m = returns path"
  then show "\<exists>segs. plan_normal_move b m = returns segs"
    by (rule normal_move_produced[OF assms])
next
  fix segs
  assume "plan_castling push b m = returns segs"
  from castling_routes[OF assms this]
  obtain rook_path tmp king_path where
    r: "plan_corridor_path b (castling_rook_from m) (castling_rook_to m) = returns rook_path"
    and k: "plan_corridor_path tmp (from_square m) (to_square m) = returns king_path"
    and s: "segs = [seg rook_path True, seg [square_center (castling_rook_to m)] False,
                   seg king_path True, seg [square_center (to_square m)] False]"
    by blast
  show "length segs = 4" "map magnet_on segs = [True, False, True, False]"
    "plan_corridor_path b (castling_rook_from m) (castling_rook_to m)
       = returns (waypoints (segs ! 0))"
    "waypoints (segs ! 1) = [square_center (castling_rook_to m)]"
    "waypoints (segs ! 3) = [square_center (to_square m)]"
    using r s by (simp_all add: seg_def)
  show "last (waypoints (segs ! 2)) = square_center (to_square m)"
    using plan_corridor_path_ends[OF assms k] s by (simp add: seg_def)
next
  fix rook_path tmp king_path
  assume "plan_corridor_path b (castling_rook_from m) (castling_rook_to m) = returns rook_path
      \<and> push b \<lparr>from_square = castling_rook_from m, to_square = castling_rook_to m\<rparr> = returns tmp
      \<and> plan_corridor_path tmp (from_square m) (to_square m) = returns king_path"
  then show "\<exists>segs. plan_castling push b m = returns segs"
    using castling_produced[OF assms] by blast
next
  fix to_target way_back own
  assume "plan_corridor_path b (from_square m) (captured_square b m) = returns to_target
      \<and> corridor_between_points order (remove_piece_at b (captured_square b m))
           (next_grave_xy gs (captured_piece_color b m))
           (square_center (from_square m)) = returns way_back
      \<and> own_piece_path b (remove_piece_at b (captured_square b m)) m = returns own"
  then show "\<exists>segs. plan_capture_sequence order gs b m =
       returns (segs, captured_piece_color b m, next_grave_xy gs (captured_piece_color b m))"
    using capture_sequence_produced[OF assms] by blast
next
  fix segs col gxy
  assume p: "plan_capture_sequence order gs b m = returns (segs, col, gxy)"
  from capture_sequence_routes[OF assms p]
  obtain to_target way_back own where
    t: "plan_corridor_path b (from_square m) (captured_square b m) = returns to_target"
    and o: "own_piece_path b (remove_piece_at b (captured_square b m)) m = returns own"
    and s: "segs = [seg to_target False, seg [square_center (captured_square b m)] True,
              seg (plan_margin_escape_path (square_center (captured_square b m)) gxy) True,
              seg [last (plan_margin_escape_path (square_center (captured_square b m)) gxy)] False,
              seg way_back False, seg own True, seg [square_center (to_square m)] False]"
    and l: "last to_target = square_center (captured_square b m)"
      "last own = square_center (to_square m)"
    by blast
  show "length segs = 7" "map magnet_on segs = [False, True, True, False, False, True, False]"
    "plan_corridor_path b (from_square m) (captured_square b m) = returns (waypoints (segs ! 0))"
    "last (waypoints (segs ! 0)) = square_center (captured_square b m)"
    "waypoints (segs ! 1) = [square_center (captured_square b m)]"
    "own_piece_path b (remove_piece_at b (captured_square b m)) m = returns (waypoints (segs ! 5))"
    "last (waypoints (segs ! 5)) = square_center (to_square m)"
    "waypoints (segs ! 6) = [square_center (to_square m)]"
    using t o s l by (simp_all add: seg_def)
  assume "\<not> is_en_passant b m"
  then show "captured_square b m = to_square m"
    by (simp add: captured_square_def)
qed

theorem plan_segment_counts_witness:
  "0 \<le> from_square \<lparr>from_square = 28, to_square = 35\<rparr>
   \<and> from_square \<lparr>from_square = 28, to_square = 35\<rparr> < 64
   \<and> \<not> is_en_passant e4xd5_board \<lparr>from_square = 28, to_square = 35\<rparr>
   \<and> (\<exists>segs. plan_capture_sequence sorted_nodes game_start e4xd5_board
                 \<lparr>from_square = 28, to_square = 35\<rparr> = returns (segs, BLACK, (664, 322 / 5))
          \<and> length segs = 7
          \<and> map magnet_on segs = [False, True, True, False, False, True, False]
          \<and> last (waypoints (segs ! 0)) = (284, 284)
          \<and> waypoints (segs ! 1) = [(284, 284)]
          \<and> waypoints (segs ! 6) = [(284, 284)])
   \<and> square_center 35 = (284, 284)"
proof -
  let ?m = "\<lparr>from_square = 28, to_square = 35\<rparr>"
  have range: "0 \<le> from_square ?m" "from_square ?m < 64"
    by simp_all
  have no_ep: "\<not> is_en_passant e4xd5_board ?m"
    by (simp add: e4xd5_board_def board_eval square_eval)
  have cap: "captured_square e4xd5_board ?m = 35"
    by (simp add: captured_square_def no_ep)
  have centre: "square_center 35 = (284, 284)"
    by (simp add: square_eval)
  obtain segs where plan: "plan_capture_sequence sorted_nodes game_start e4xd5_board ?m =
      returns (segs, BLACK, (664, 322 / 5))"
    using e4xd5_plan by blast
  note facts = plan_segment_counts[OF range, of e4xd5_board sorted_nodes game_start,
      THEN conjunct2, THEN conjunct2, THEN conjunct1, rule_format, OF plan]
  have shape: "length segs = 7"
    "map magnet_on segs = [False, True, True, False, False, True, False]"
    "last (waypoints (segs ! 0)) = (284, 284)" "waypoints (segs ! 1) = [(284, 284)]"
    "waypoints (segs ! 6) = [(284, 284)]"
    using facts unfolding cap by (simp_all add: centre)
  show ?thesis
    by (intro conjI exI[of _ segs]) (rule range no_ep plan centre shape)+
qed

lemma rc_to_center_xy_inj:
  "rc_to_center_xy r c = rc_to_center_xy r' c' \<longleftrightarrow> r = r' \<and> c = c'"
  by (auto simp: geometry)

lemma square_center_of_file_rank:
  "square_center (chess_square (square_file sq) r) = rc_to_center_xy r (square_file sq)"
proof -
  have "(r * 8 + sq mod 8) div 8 = r" "(r * 8 + sq mod 8) mod 8 = sq mod 8"
    by presburger+
  then show ?thesis
    by (simp add: square_center_def sq_to_rc_def chess_square_def square_file_def square_rank_def)
qed


text \<open>
  C4.  For an en-passant capture from a square of the board, \<open>plan_capture_sequence\<close> takes
  as captured square the one on the destination's file and the source's rank: the first leg
  is the planner's route from the source to that square and ends on its centre, the engage
  segment holds that centre alone, the removal leg is the margin route from that centre,
  the colour returned is that of the piece standing there, and the own piece's route is
  planned on the board with that square (not the destination) emptied.  Whenever source and
  destination ranks differ, as in every en-passant move of chess, that square and its
  centre are not the destination's.  The plan is returned whenever the three routes exist.
\<close>

theorem en_passant_captured_square:
  assumes "0 \<le> from_square m" "from_square m < 64" "is_en_passant b m"
    and "cap = chess_square (square_file (to_square m)) (square_rank (from_square m))"
    and "cap_xy = rc_to_center_xy (square_rank (from_square m)) (square_file (to_square m))"
  shows "(\<forall>segs col gxy. plan_capture_sequence order gs b m = returns (segs, col, gxy) \<longrightarrow>
            plan_corridor_path b (from_square m) cap = returns (waypoints (segs ! 0))
            \<and> last (waypoints (segs ! 0)) = cap_xy
            \<and> waypoints (segs ! 1) = [cap_xy]
            \<and> waypoints (segs ! 2) = plan_margin_escape_path cap_xy gxy
            \<and> hd (waypoints (segs ! 2)) = cap_xy
            \<and> col = (case piece_at b cap of None \<Rightarrow> WHITE | Some p \<Rightarrow> color p)
            \<and> gxy = next_grave_xy gs col
            \<and> own_piece_path b (remove_piece_at b cap) m = returns (waypoints (segs ! 5)))
       \<and> (\<forall>to_target way_back own.
            plan_corridor_path b (from_square m) cap = returns to_target
            \<and> corridor_between_points order (remove_piece_at b cap)
                 (next_grave_xy gs (case piece_at b cap of None \<Rightarrow> WHITE | Some p \<Rightarrow> color p))
                 (square_center (from_square m)) = returns way_back
            \<and> own_piece_path b (remove_piece_at b cap) m = returns own \<longrightarrow>
            (\<exists>segs col gxy. plan_capture_sequence order gs b m = returns (segs, col, gxy)))
       \<and> square_center cap = cap_xy
       \<and> (square_rank (from_square m) \<noteq> square_rank (to_square m) \<longrightarrow>
            cap \<noteq> to_square m \<and> cap_xy \<noteq> square_center (to_square m))"
proof -
  have cap: "captured_square b m = cap"
    using assms(3,4) by (simp add: captured_square_def)
  have colour: "captured_piece_color b m = (case piece_at b cap of None \<Rightarrow> WHITE | Some p \<Rightarrow> color p)"
    by (simp add: captured_piece_color_def cap split: option.splits)
  have centre: "square_center cap = cap_xy"
    unfolding assms(4,5) by (rule square_center_of_file_rank)
  have dst: "square_center (to_square m) =
      rc_to_center_xy (square_rank (to_square m)) (square_file (to_square m))"
    by (simp add: square_center_def sq_to_rc_def)
  have shape: "plan_corridor_path b (from_square m) cap = returns (waypoints (segs ! 0))
            \<and> last (waypoints (segs ! 0)) = cap_xy
            \<and> waypoints (segs ! 1) = [cap_xy]
            \<and> waypoints (segs ! 2) = plan_margin_escape_path cap_xy gxy
            \<and> hd (waypoints (segs ! 2)) = cap_xy
            \<and> col = (case piece_at b cap of None \<Rightarrow> WHITE | Some p \<Rightarrow> color p)
            \<and> gxy = next_grave_xy gs col
            \<and> own_piece_path b (remove_piece_at b cap) m = returns (waypoints (segs ! 5))"
    if "plan_capture_sequence order gs b m = returns (segs, col, gxy)" for segs col gxy
  proof -
    from capture_sequence_routes[OF assms(1,2) that]
    obtain to_target way_back own where
      s: "plan_corridor_path b (from_square m) cap = returns to_target"
        "own_piece_path b (remove_piece_at b cap) m = returns own"
        "segs = [seg to_target False, seg [cap_xy] True,
              seg (plan_margin_escape_path cap_xy gxy) True,
              seg [last (plan_margin_escape_path cap_xy gxy)] False,
              seg way_back False, seg own True, seg [square_center (to_square m)] False]"
        "last to_target = cap_xy"
        "col = (case piece_at b cap of None \<Rightarrow> WHITE | Some p \<Rightarrow> color p)"
        "gxy = next_grave_xy gs col"
      unfolding cap centre colour by blast
    then show ?thesis
      by (simp add: seg_def margin_path_starts)
  qed
  have produced: "\<exists>segs col gxy. plan_capture_sequence order gs b m = returns (segs, col, gxy)"
    if "plan_corridor_path b (from_square m) cap = returns to_target
       \<and> corridor_between_points order (remove_piece_at b cap)
            (next_grave_xy gs (case piece_at b cap of None \<Rightarrow> WHITE | Some p \<Rightarrow> color p))
            (square_center (from_square m)) = returns way_back
       \<and> own_piece_path b (remove_piece_at b cap) m = returns own"
    for to_target way_back own
    using capture_sequence_produced[OF assms(1,2), of b to_target order gs way_back own] that
    unfolding cap colour by blast
  have differ: "cap \<noteq> to_square m \<and> cap_xy \<noteq> square_center (to_square m)"
    if "square_rank (from_square m) \<noteq> square_rank (to_square m)"
  proof -
    have "cap_xy \<noteq> square_center (to_square m)"
      using that unfolding dst assms(5) by (simp add: rc_to_center_xy_inj)
    with centre show ?thesis
      by auto
  qed
  show ?thesis
    using shape produced centre differ by blast
qed

theorem en_passant_captured_square_witness:
  "is_en_passant ep_board \<lparr>from_square = 28, to_square = 19\<rparr>
   \<and> (\<exists>segs. plan_capture_sequence sorted_nodes game_start ep_board
                 \<lparr>from_square = 28, to_square = 19\<rparr> = returns (segs, WHITE, (664, 322 / 5))
          \<and> last (waypoints (segs ! 0)) = (284, 356)
          \<and> waypoints (segs ! 1) = [(284, 356)]
          \<and> hd (waypoints (segs ! 2)) = (284, 356))
   \<and> square_center 27 = (284, 356) \<and> square_center 19 = (284, 428)"
proof -
  let ?m = "\<lparr>from_square = 28, to_square = 19\<rparr>"
  have range: "0 \<le> from_square ?m" "from_square ?m < 64"
    by simp_all
  have cap: "27 = chess_square (square_file (to_square ?m)) (square_rank (from_square ?m))"
    by (simp add: square_eval)
  have cap_xy: "(284, 356) = rc_to_center_xy (square_rank (from_square ?m)) (square_file (to_square ?m))"
    by (simp add: square_eval)
  have centres: "square_center 27 = (284, 356)" "square_center 19 = (284, 428)"
    by (simp_all add: square_eval)
  from en_passant_plan obtain segs where ep: "is_en_passant ep_board ?m"
    and plan: "plan_capture_sequence sorted_nodes game_start ep_board ?m =
      returns (segs, WHITE, (664, 322 / 5))"
    by blast
  note facts = en_passant_captured_square[OF range ep cap cap_xy, of sorted_nodes game_start,
      THEN conjunct1, rule_format, OF plan]
  have "last (waypoints (segs ! 0)) = (284, 356)"
    using facts by (elim conjE)
  moreover have "waypoints (segs ! 1) = [(284, 356)]"
    using facts by (elim conjE)
  moreover have "hd (waypoints (segs ! 2)) = (284, 356)"
    using facts by (elim conjE)
  ultimately have shape: "last (waypoints (segs ! 0)) = (284, 356)"
    "waypoints (segs ! 1) = [(284, 356)]" "hd (waypoints (segs ! 2)) = (284, 356)"
    by this+
  show ?thesis
    by (intro conjI exI[of _ segs]) (rule ep plan shape centres)+
qed

end
